theory Spec2Isabelle
  imports Main "HOL-Library.AList"
begin

section \<open>Python values used by the scripts\<close>

text \<open>
  The scripts under \<^verbatim>\<open>Scripts/\<close> work on Python strings, lists and dictionaries.
  A Python \<^verbatim>\<open>str\<close> is modelled as a \<^typ>\<open>string\<close>, one \<^typ>\<open>char\<close> per code point, so
  the texts covered are those whose code points are below 256. An exception is a value of
  type \<open>error\<close>; a handler that prints the exception it caught is modelled by returning
  that exception beside the result.
\<close>

datatype error =
    OSError string
  | UnicodeDecodeError string
  | ValueError string
  | KeyError

text \<open>
  A Python \<^verbatim>\<open>dict\<close> keeps its keys in insertion order and holds each key once. It is an
  association list whose keys are pairwise distinct (\<open>is_dict\<close>); \<^verbatim>\<open>d[k] = v\<close> replaces
  the value of a key that is present, in place, and appends a new key at the end.
\<close>

type_synonym 'v dict = "(string \<times> 'v) list"

definition is_dict :: "('k \<times> 'v) list \<Rightarrow> bool" where
  "is_dict d = distinct (map fst d)"

definition dict_set :: "'v dict \<Rightarrow> string \<Rightarrow> 'v \<Rightarrow> 'v dict" where
  "dict_set d k v = AList.update k v d"

definition dict_get :: "'v dict \<Rightarrow> string \<Rightarrow> error + 'v" where
  "dict_get d k = (case map_of d k of None \<Rightarrow> Inl KeyError | Some v \<Rightarrow> Inr v)"

text \<open>\<^verbatim>\<open>d[k] += 1\<close>: reads \<^verbatim>\<open>d[k]\<close> (KeyError when the key is missing), then stores.\<close>

definition dict_incr :: "int dict \<Rightarrow> string \<Rightarrow> error + int dict" where
  "dict_incr d k = (case dict_get d k of Inl e \<Rightarrow> Inl e | Inr n \<Rightarrow> Inr (dict_set d k (n + 1)))"

text \<open>
  The builtins \<^verbatim>\<open>max\<close> and \<^verbatim>\<open>min\<close> raise ValueError on an empty iterable; otherwise they
  keep the first item and replace it only by a strictly greater (smaller) one.
\<close>

definition empty_max_msg :: string where
  "empty_max_msg = ''max() arg is an empty sequence''"

definition empty_min_msg :: string where
  "empty_min_msg = ''min() arg is an empty sequence''"

fun py_max :: "int list \<Rightarrow> error + int" where
  "py_max [] = Inl (ValueError empty_max_msg)"
| "py_max (x # xs) = Inr (fold (\<lambda>y m. if y > m then y else m) xs x)"

fun py_min :: "int list \<Rightarrow> error + int" where
  "py_min [] = Inl (ValueError empty_min_msg)"
| "py_min (x # xs) = Inr (fold (\<lambda>y m. if y < m then y else m) xs x)"

text \<open>
  \<^verbatim>\<open>max(d, key=d.get)\<close> iterates the keys of \<open>d\<close> in insertion order and compares the
  values stored under them; the value of a key of \<open>d\<close> is the one in its item.
\<close>

fun py_max_key :: "int dict \<Rightarrow> error + string" where
  "py_max_key [] = Inl (ValueError empty_max_msg)"
| "py_max_key ((k, v) # kvs) =
     Inr (fst (fold (\<lambda>(k', v') (bk, bv). if v' > bv then (k', v') else (bk, bv)) kvs (k, v)))"

section \<open>Balance analysis: \<^verbatim>\<open>count_nodes_in_partitions_and_diff\<close>\<close>

text \<open>
  \<^verbatim>\<open>
  node_counts = {}
  for file, nodes in nodes_by_partition.items():
      node_counts[file] = len(nodes)
  max_nodes = max(node_counts.values())
  min_nodes = min(node_counts.values())
  diff = max_nodes - min_nodes
  return node_counts, diff
  \<close>
  The function has no handler of its own: an exception of \<^verbatim>\<open>max\<close> leaves it.
\<close>

definition node_counts_loop :: "string list dict \<Rightarrow> int dict" where
  "node_counts_loop nodes_by_partition =
     fold (\<lambda>(file, nodes) node_counts. dict_set node_counts file (int (length nodes)))
       nodes_by_partition []"

definition count_nodes_in_partitions_and_diff :: "string list dict \<Rightarrow> error + (int dict \<times> int)" where
  "count_nodes_in_partitions_and_diff nodes_by_partition =
     (let node_counts = node_counts_loop nodes_by_partition in
      case py_max (map snd node_counts) of
        Inl e \<Rightarrow> Inl e
      | Inr max_nodes \<Rightarrow>
          (case py_min (map snd node_counts) of
             Inl e \<Rightarrow> Inl e
           | Inr min_nodes \<Rightarrow> Inr (node_counts, max_nodes - min_nodes)))"

section \<open>Reading text: lines, \<^verbatim>\<open>strip\<close> and the two patterns\<close>

text \<open>
  A file system maps a path to the decoded text of the file, or to the error that opening
  or decoding it raises. Both readers keep nothing of a file whose reading fails part way
  (\<^verbatim>\<open>readlines()\<close> returns before the first line is looked at; the extractor stores a
  file's nodes only after its last line), so a read is one step.
  In text mode \<^verbatim>\<open>\r\n\<close> and \<^verbatim>\<open>\r\<close> are read as \<^verbatim>\<open>\n\<close>, and a line ends after each
  \<^verbatim>\<open>\n\<close>.
\<close>

type_synonym filesystem = "string \<Rightarrow> error + string"

definition LF :: char where
  "LF = CHR 0x0A"

definition CR :: char where
  "CR = CHR 0x0D"

fun universal_newlines :: "string \<Rightarrow> string" where
  "universal_newlines [] = []"
| "universal_newlines [c] = (if c = CR then [LF] else [c])"
| "universal_newlines (c # d # ds) =
     (if c = CR \<and> d = LF then LF # universal_newlines ds
      else if c = CR then LF # universal_newlines (d # ds)
      else c # universal_newlines (d # ds))"

fun split_lines :: "string \<Rightarrow> string list" where
  "split_lines [] = []"
| "split_lines (c # cs) =
     (if c = LF then [LF] # split_lines cs
      else (case split_lines cs of [] \<Rightarrow> [[c]] | l # ls \<Rightarrow> (c # l) # ls))"

definition readlines :: "string \<Rightarrow> string list" where
  "readlines content = split_lines (universal_newlines content)"

text \<open>
  White space as \<^verbatim>\<open>str.strip()\<close> and the class \<^verbatim>\<open>\s\<close> see it, and the class
  \<^verbatim>\<open>[\d.]\<close>, for code points below 256.
\<close>

definition is_space :: "char \<Rightarrow> bool" where
  "is_space c = (c \<in> set [CHR 0x09, CHR 0x0A, CHR 0x0B, CHR 0x0C, CHR 0x0D, CHR 0x1C,
     CHR 0x1D, CHR 0x1E, CHR 0x1F, CHR 0x20, CHR 0x85, CHR 0xA0])"

definition is_digit_or_dot :: "char \<Rightarrow> bool" where
  "is_digit_or_dot c = (c \<in> set ''0123456789.'')"

definition strip :: "string \<Rightarrow> string" where
  "strip s = rev (dropWhile is_space (rev (dropWhile is_space s)))"

text \<open>
  \<^verbatim>\<open>re.search(r'"init_node":\s*([\d.]+)', line)\<close>: the leftmost position where the label
  stands, followed by any white space and at least one digit or dot. The two classes share
  no character, so the greedy \<^verbatim>\<open>\s*\<close> never gives a character back. The result is
  \<^verbatim>\<open>group(1)\<close>, the longest run of digits and dots there, or \<open>None\<close> for no match.
\<close>

definition init_label :: string where
  "init_label = CHR 0x22 # ''init_node'' @ [CHR 0x22, CHR '':'']"

definition term_label :: string where
  "term_label = CHR 0x22 # ''term_node'' @ [CHR 0x22, CHR '':'']"

definition match_here :: "string \<Rightarrow> string \<Rightarrow> string option" where
  "match_here label s =
     (if take (length label) s = label then
        (let tok = takeWhile is_digit_or_dot (dropWhile is_space (drop (length label) s))
         in if tok = [] then None else Some tok)
      else None)"

fun re_search :: "string \<Rightarrow> string \<Rightarrow> string option" where
  "re_search label [] = match_here label []"
| "re_search label (c # cs) =
     (case match_here label (c # cs) of
        Some tok \<Rightarrow> Some tok
      | None \<Rightarrow> re_search label cs)"

section \<open>Node extraction: \<^verbatim>\<open>extract_unique_nodes_from_multiple_files\<close>\<close>

text \<open>
  \<^verbatim>\<open>
  all_nodes = {}
  try:
      for file_path in files:
          unique_nodes_set = set()
          with open(file_path, 'r', encoding='utf-8') as file:
              for line in file:
                  line = line.strip()
                  match_init = re.search(r'"init_node":\s*([\d.]+)', line)
                  if match_init:
                      unique_nodes_set.add(match_init.group(1))
                  match_term = re.search(r'"term_node":\s*([\d.]+)', line)
                  if match_term:
                      unique_nodes_set.add(match_term.group(1))
          all_nodes[file_path] = list(unique_nodes_set)
      return all_nodes
  except Exception as e:
      print(f"Error processing files: {e}")
      return all_nodes
  \<close>
  The set is a list without repetition; \<^verbatim>\<open>list(unique_nodes_set)\<close> may give its elements
  in any order, and the model gives them in the order of their first insertion. The
  callers read the list through \<^verbatim>\<open>in\<close> and \<^verbatim>\<open>len\<close> only. The one handler encloses the
  loop over the files.
\<close>

definition set_add :: "'a list \<Rightarrow> 'a \<Rightarrow> 'a list" where
  "set_add s x = (if x \<in> set s then s else s @ [x])"

fun scan_partition_lines :: "string list \<Rightarrow> string list \<Rightarrow> string list" where
  "scan_partition_lines [] unique_nodes_set = unique_nodes_set"
| "scan_partition_lines (line # rest) unique_nodes_set =
     (let line' = strip line;
          s1 = (case re_search init_label line' of
                  Some tok \<Rightarrow> set_add unique_nodes_set tok
                | None \<Rightarrow> unique_nodes_set);
          s2 = (case re_search term_label line' of
                  Some tok \<Rightarrow> set_add s1 tok
                | None \<Rightarrow> s1)
      in scan_partition_lines rest s2)"

fun extract_loop ::
  "filesystem \<Rightarrow> string list \<Rightarrow> string list dict \<Rightarrow> string list dict \<times> error option" where
  "extract_loop fs [] all_nodes = (all_nodes, None)"
| "extract_loop fs (file_path # rest) all_nodes =
     (case fs file_path of
        Inl e \<Rightarrow> (all_nodes, Some e)
      | Inr content \<Rightarrow>
          extract_loop fs rest
            (dict_set all_nodes file_path (scan_partition_lines (readlines content) [])))"

definition extract_unique_nodes_from_multiple_files ::
  "filesystem \<Rightarrow> string list \<Rightarrow> string list dict \<times> error option" where
  "extract_unique_nodes_from_multiple_files fs files = extract_loop fs files []"

section \<open>Cut analysis: \<^verbatim>\<open>count_edges_in_cut_and_max_partition\<close>\<close>

text \<open>
  \<^verbatim>\<open>
  cut_edges_count = {file: 0 for file in nodes_by_partition}
  try:
      with open(original_graph_file, 'r', encoding='utf-8') as file:
          graph_data = file.readlines()
          for line in graph_data:
              line = line.strip()
              match_init = re.search(r'"init_node":\s*([\d.]+)', line)
              match_term = re.search(r'"term_node":\s*([\d.]+)', line)
              if match_init and match_term:
                  init_node = match_init.group(1)
                  term_node = match_term.group(1)
                  for file, nodes in nodes_by_partition.items():
                      if init_node in nodes and term_node not in nodes:
                          cut_edges_count[file] += 1
                      elif term_node in nodes and init_node not in nodes:
                          cut_edges_count[file] += 1
      max_partition = max(cut_edges_count, key=cut_edges_count.get)
      return cut_edges_count, max_partition
  except Exception as e:
      print(f"Error processing the original graph file: {e}")
      return cut_edges_count, None
  \<close>
  The counters are updated in place, so the handler returns them as they stand when the
  exception arrives. The result is the returned pair and the exception printed, if any.
\<close>

definition zero_counts :: "string list dict \<Rightarrow> int dict" where
  "zero_counts nodes_by_partition =
     fold (\<lambda>(file, nodes) cut_edges_count. dict_set cut_edges_count file 0)
       nodes_by_partition []"

fun partitions_loop ::
  "string \<Rightarrow> string \<Rightarrow> string list dict \<Rightarrow> int dict \<Rightarrow> int dict \<times> error option" where
  "partitions_loop init_node term_node [] cut_edges_count = (cut_edges_count, None)"
| "partitions_loop init_node term_node ((file, nodes) # rest) cut_edges_count =
     (if init_node \<in> set nodes \<and> term_node \<notin> set nodes then
        (case dict_incr cut_edges_count file of
           Inl e \<Rightarrow> (cut_edges_count, Some e)
         | Inr c \<Rightarrow> partitions_loop init_node term_node rest c)
      else if term_node \<in> set nodes \<and> init_node \<notin> set nodes then
        (case dict_incr cut_edges_count file of
           Inl e \<Rightarrow> (cut_edges_count, Some e)
         | Inr c \<Rightarrow> partitions_loop init_node term_node rest c)
      else partitions_loop init_node term_node rest cut_edges_count)"

fun graph_lines_loop ::
  "string list dict \<Rightarrow> string list \<Rightarrow> int dict \<Rightarrow> int dict \<times> error option" where
  "graph_lines_loop nodes_by_partition [] cut_edges_count = (cut_edges_count, None)"
| "graph_lines_loop nodes_by_partition (line # rest) cut_edges_count =
     (let line' = strip line in
      case (re_search init_label line', re_search term_label line') of
        (Some init_node, Some term_node) \<Rightarrow>
          (case partitions_loop init_node term_node nodes_by_partition cut_edges_count of
             (c, Some e) \<Rightarrow> (c, Some e)
           | (c, None) \<Rightarrow> graph_lines_loop nodes_by_partition rest c)
      | _ \<Rightarrow> graph_lines_loop nodes_by_partition rest cut_edges_count)"

definition count_edges_in_cut_and_max_partition ::
  "filesystem \<Rightarrow> string \<Rightarrow> string list dict \<Rightarrow> (int dict \<times> string option) \<times> error option" where
  "count_edges_in_cut_and_max_partition fs original_graph_file nodes_by_partition =
     (let cut_edges_count = zero_counts nodes_by_partition in
      case fs original_graph_file of
        Inl e \<Rightarrow> ((cut_edges_count, None), Some e)
      | Inr content \<Rightarrow>
          (case graph_lines_loop nodes_by_partition (readlines content) cut_edges_count of
             (c, Some e) \<Rightarrow> ((c, None), Some e)
           | (c, None) \<Rightarrow>
               (case py_max_key c of
                  Inl e \<Rightarrow> ((c, None), Some e)
                | Inr max_partition \<Rightarrow> ((c, Some max_partition), None))))"

section \<open>The generator: \<^verbatim>\<open>generate_geojson\<close>\<close>

text \<open>
  \<^verbatim>\<open>
  if num_edges > num_nodes * (num_nodes - 1) // 2:
      raise ValueError("Too many edges for the given number of nodes.")
  geojson = {"type": "FeatureCollection", "features": []}
  nodes = {i: [round(random.uniform(-18000, 18000), 6),
               round(random.uniform(-9000, 9000), 6)]
           for i in range(1, num_nodes + 1)}
  edges = set()
  while len(edges) < num_edges:
      init_node, term_node = random.sample(list(nodes.keys()), 2)
      if (init_node, term_node) not in edges and (term_node, init_node) not in edges:
          edges.add((init_node, term_node))
  for fid, (init_node, term_node) in enumerate(edges, start=1):
      feature = {... "fid": fid, "cat": fid, "init_node": init_node,
                 "term_node": term_node, "capacity": ..., "length": ...,
                 ... "coordinates": [nodes[init_node], nodes[term_node]] ...}
      geojson["features"].append(feature)
  return geojson
  \<close>
  The random numbers are an input. The floats (coordinates, capacity, length) are values of
  a type \<open>'r\<close> that the model does not look into, given per node and per feature. The
  draws of \<^verbatim>\<open>random.sample\<close> are a finite list of pairs of naturals, one pair per call;
  the loop may ask for more pairs than any given list holds, and the result \<open>None\<close> says
  that the list ran out before the loop ended. The set of edges is a list without
  repetition, in insertion order; the order in which Python iterates it is not fixed.
\<close>

record 'r rng =
  uniform_coord :: "int \<Rightarrow> 'r \<times> 'r"
  uniform_capacity :: "int \<Rightarrow> 'r"
  uniform_length :: "int \<Rightarrow> 'r"
  sample_draws :: "(nat \<times> nat) list"

record 'r feature =
  fid :: int
  cat :: int
  init_node :: int
  term_node :: int
  capacity :: 'r
  length_km :: 'r
  coordinates :: "('r \<times> 'r) list"

record 'r geojson =
  features :: "'r feature list"

definition too_many_edges :: error where
  "too_many_edges = ValueError ''Too many edges for the given number of nodes.''"

definition sample_too_large :: error where
  "sample_too_large = ValueError ''Sample larger than population or is negative''"

text \<open>
  \<^verbatim>\<open>random.sample(population, 2)\<close> of the standard library: ValueError when the population
  has fewer than two elements, otherwise the elements at two different positions. The
  positions are found as the library's selection from a pool does: the first draw picks a
  position, the last element moves into it, and the second draw picks among the first
  \<open>n - 1\<close> positions of the pool.
\<close>

definition sample2 :: "'a list \<Rightarrow> nat \<times> nat \<Rightarrow> error + ('a \<times> 'a)" where
  "sample2 population draw =
     (let n = length population in
      if n < 2 then Inl sample_too_large
      else
        (let j1 = fst draw mod n;
             pool = population[j1 := population ! (n - 1)];
             j2 = snd draw mod (n - 1)
         in Inr (population ! j1, pool ! j2)))"

fun edges_loop ::
  "int list \<Rightarrow> int \<Rightarrow> (nat \<times> nat) list \<Rightarrow> (int \<times> int) list \<Rightarrow>
   (error + (int \<times> int) list) option" where
  "edges_loop keys num_edges [] edges =
     (if int (length edges) < num_edges then
        (if length keys < 2 then Some (Inl sample_too_large) else None)
      else Some (Inr edges))"
| "edges_loop keys num_edges (draw # draws) edges =
     (if int (length edges) < num_edges then
        (case sample2 keys draw of
           Inl e \<Rightarrow> Some (Inl e)
         | Inr (i, t) \<Rightarrow>
             if (i, t) \<notin> set edges \<and> (t, i) \<notin> set edges
             then edges_loop keys num_edges draws (set_add edges (i, t))
             else edges_loop keys num_edges draws edges)
      else Some (Inr edges))"

fun make_features ::
  "'r rng \<Rightarrow> (int \<times> 'r \<times> 'r) list \<Rightarrow> int \<Rightarrow> (int \<times> int) list \<Rightarrow> error + 'r feature list" where
  "make_features rnd nodes n [] = Inr []"
| "make_features rnd nodes n ((i, t) # rest) =
     (case map_of nodes i of
        None \<Rightarrow> Inl KeyError
      | Some ci \<Rightarrow>
          (case map_of nodes t of
             None \<Rightarrow> Inl KeyError
           | Some ct \<Rightarrow>
               (case make_features rnd nodes (n + 1) rest of
                  Inl e \<Rightarrow> Inl e
                | Inr fs \<Rightarrow>
                    Inr (\<lparr>fid = n, cat = n, init_node = i, term_node = t,
                          capacity = uniform_capacity rnd n, length_km = uniform_length rnd n,
                          coordinates = [ci, ct]\<rparr> # fs))))"

definition generate_geojson :: "'r rng \<Rightarrow> int \<Rightarrow> int \<Rightarrow> (error + 'r geojson) option" where
  "generate_geojson rnd num_nodes num_edges =
     (if num_edges > (num_nodes * (num_nodes - 1)) div 2 then Some (Inl too_many_edges)
      else
        (let nodes = map (\<lambda>i. (i, uniform_coord rnd i)) [1..num_nodes] in
         case edges_loop (map fst nodes) num_edges (sample_draws rnd) [] of
           None \<Rightarrow> None
         | Some (Inl e) \<Rightarrow> Some (Inl e)
         | Some (Inr edges) \<Rightarrow>
             (case make_features rnd nodes 1 edges of
                Inl e \<Rightarrow> Some (Inl e)
              | Inr fs \<Rightarrow> Some (Inr \<lparr>features = fs\<rparr>))))"

section \<open>Notions used to state the properties\<close>

text \<open>
  The counter of a label in a counter dictionary (0 for a label that is not a key), the
  test that exactly one endpoint of an edge lies in a node list, the edge that the cut
  analysis reads from one line, the edges it reads from a list of lines, and the tokens
  that the two patterns match on the lines of a text, as they are written there. These follow
  the wording of the properties; the loops above do not use them.
\<close>

definition counter :: "int dict \<Rightarrow> string \<Rightarrow> int" where
  "counter c k = (case map_of c k of None \<Rightarrow> 0 | Some n \<Rightarrow> n)"

definition crosses :: "string \<Rightarrow> string \<Rightarrow> string list \<Rightarrow> bool" where
  "crosses u v nodes = ((u \<in> set nodes) \<noteq> (v \<in> set nodes))"

definition cut_increment :: "string \<Rightarrow> string \<Rightarrow> string list dict \<Rightarrow> string \<Rightarrow> int" where
  "cut_increment u v d k =
     (case map_of d k of None \<Rightarrow> 0 | Some nodes \<Rightarrow> if crosses u v nodes then 1 else 0)"

definition line_edge :: "string \<Rightarrow> (string \<times> string) option" where
  "line_edge line =
     (case (re_search init_label (strip line), re_search term_label (strip line)) of
        (Some u, Some v) \<Rightarrow> Some (u, v)
      | _ \<Rightarrow> None)"

definition recognised_edges :: "string list \<Rightarrow> (string \<times> string) list" where
  "recognised_edges lines = List.map_filter line_edge lines"

definition line_tokens :: "string \<Rightarrow> string list" where
  "line_tokens line =
     (case re_search init_label (strip line) of None \<Rightarrow> [] | Some tok \<Rightarrow> [tok]) @
     (case re_search term_label (strip line) of None \<Rightarrow> [] | Some tok \<Rightarrow> [tok])"

definition raw_tokens :: "string \<Rightarrow> string list" where
  "raw_tokens content = concat (map line_tokens (readlines content))"

definition cut_count :: "string list \<Rightarrow> string list \<Rightarrow> int" where
  "cut_count nodes lines =
     int (length (filter (\<lambda>(u, v). crosses u v nodes) (recognised_edges lines)))"

section \<open>Concrete inputs\<close>




text \<open>
  The scenario of two partitions \<open>A = {1, 2}\<close> and \<open>B = {3}\<close> with the edges \<open>(1, 2)\<close>
  and \<open>(2, 3)\<close>, one feature per line as the reformatted files have them.
\<close>

definition example_partitions :: "string list dict" where
  "example_partitions = [(''A'', [''1'', ''2'']), (''B'', [''3''])]"

definition example_graph :: string where
  "example_graph =
     ''{ '' @ init_label @ '' 1, '' @ term_label @ '' 2 },'' @ [LF] @
     ''{ '' @ init_label @ '' 2, '' @ term_label @ '' 3 }'' @ [LF]"

definition example_partition_A :: string where
  "example_partition_A =
     ''{ '' @ init_label @ '' 1, '' @ term_label @ '' 2 },'' @ [LF] @
     ''{ '' @ init_label @ '' 2, '' @ term_label @ '' 1 }'' @ [LF]"

definition example_partition_B :: string where
  "example_partition_B = ''{ '' @ init_label @ '' 3, '' @ term_label @ '' 3 }'' @ [LF]"

definition example_fs :: filesystem where
  "example_fs path =
     (if path = ''graph'' then Inr example_graph
      else if path = ''A'' then Inr example_partition_A
      else if path = ''B'' then Inr example_partition_B
      else Inl (OSError path))"

text \<open>
  A partition file that writes its nodes as decimals, and a graph file that writes the
  same nodes as integers.
\<close>

definition decimal_partition :: string where
  "decimal_partition = ''{ '' @ init_label @ '' 12.0, '' @ term_label @ '' 13.0 }'' @ [LF]"

definition integer_graph :: string where
  "integer_graph = ''{ '' @ init_label @ '' 12, '' @ term_label @ '' 14 }'' @ [LF]"

definition mixed_fs :: filesystem where
  "mixed_fs path = (if path = ''P'' then Inr decimal_partition else Inr integer_graph)"

text \<open>
  A node that lies in no partition other than \<open>P\<close>, and a node that lies in no partition.
\<close>

definition only_in :: "string \<Rightarrow> string \<Rightarrow> string list dict \<Rightarrow> bool" where
  "only_in u P d = (\<forall>(R, rs) \<in> set d. u \<in> set rs \<longrightarrow> R = P)"

definition in_no_partition :: "string \<Rightarrow> string list dict \<Rightarrow> bool" where
  "in_no_partition v d = (\<forall>(R, rs) \<in> set d. v \<notin> set rs)"

text \<open>
  Two partitions that share node 1, and a graph with the edge from 1 to 9, a node of no
  partition.
\<close>

definition overlapping_partitions :: "string list dict" where
  "overlapping_partitions = [(''P'', [''1'']), (''Q'', [''1''])]"

definition overlapping_graph :: string where
  "overlapping_graph = ''{ '' @ init_label @ '' 1, '' @ term_label @ '' 9 }'' @ [LF]"

definition overlapping_fs :: filesystem where
  "overlapping_fs path = Inr overlapping_graph"

text \<open>
  A source of random numbers for the generator. With three nodes its draws give the edges
  \<open>(1, 3)\<close>, \<open>(1, 2)\<close>, then \<open>(2, 1)\<close>, which is refused as the reverse of \<open>(1, 2)\<close>, and
  \<open>(2, 3)\<close>.
\<close>

definition example_rng :: "unit rng" where
  "example_rng =
     \<lparr>uniform_coord = (\<lambda>i. ((), ())), uniform_capacity = (\<lambda>n. ()),
      uniform_length = (\<lambda>n. ()), sample_draws = [(0, 0), (0, 1), (1, 0), (1, 1)]\<rparr>"

text \<open>
  The invariant of the set of edges: no edge twice, no edge from a node to itself, and no
  edge together with its reverse.
\<close>

definition simple_edges :: "(int \<times> int) list \<Rightarrow> bool" where
  "simple_edges es =
     (distinct es \<and> (\<forall>(a, b) \<in> set es. a \<noteq> b \<and> (b, a) \<notin> set es))"

section \<open>Facts about dictionaries and the builtins\<close>

lemma update_append_fresh:
  "k \<notin> fst ` set al \<Longrightarrow> AList.update k v al = al @ [(k, v)]"
  by (induction al) auto

lemma fold_dict_set_fresh:
  "distinct (map fst d) \<Longrightarrow> fst ` set d \<inter> fst ` set acc = {} \<Longrightarrow>
   fold (\<lambda>(k, x) a. dict_set a k (f x)) d acc = acc @ map (\<lambda>(k, x). (k, f x)) d"
proof (induction d arbitrary: acc)
  case Nil
  then show ?case by simp
next
  case (Cons p d)
  obtain k x where p: "p = (k, x)" by (cases p)
  from Cons.prems p have fresh: "k \<notin> fst ` set acc" by auto
  have step: "dict_set acc k (f x) = acc @ [(k, f x)]"
    using fresh by (simp add: dict_set_def update_append_fresh)
  have disj: "fst ` set d \<inter> fst ` set (acc @ [(k, f x)]) = {}"
    using Cons.prems p by (auto simp: image_iff)
  have dist: "distinct (map fst d)" using Cons.prems by simp
  show ?case
    using Cons.IH [OF dist disj] by (simp add: p step)
qed

lemma node_counts_loop_eq:
  "is_dict d \<Longrightarrow> node_counts_loop d = map (\<lambda>(file, nodes). (file, int (length nodes))) d"
  using fold_dict_set_fresh [of d "[]" "\<lambda>nodes. int (length nodes)"]
  by (simp add: node_counts_loop_def is_dict_def)

lemma Max_insert2:
  "finite S \<Longrightarrow> Max (insert (x::int) (insert y S)) = Max (insert (max x y) S)"
  by (cases "S = {}") (simp_all add: max.assoc)

lemma Min_insert2:
  "finite S \<Longrightarrow> Min (insert (x::int) (insert y S)) = Min (insert (min x y) S)"
  by (cases "S = {}") (simp_all add: min.assoc)

lemma fold_max_eq:
  "fold (\<lambda>y m. if y > m then y else m) xs (x::int) = Max (insert x (set xs))"
proof (induction xs arbitrary: x)
  case Nil
  then show ?case by simp
next
  case (Cons y ys)
  have "(if y > x then y else x) = max x y" by (simp add: max_def)
  then show ?case
    using Cons.IH [of "max x y"] by (simp add: Max_insert2 del: Max_insert)
qed

lemma fold_min_eq:
  "fold (\<lambda>y m. if y < m then y else m) xs (x::int) = Min (insert x (set xs))"
proof (induction xs arbitrary: x)
  case Nil
  then show ?case by simp
next
  case (Cons y ys)
  have "(if y < x then y else x) = min x y" by (simp add: min_def)
  then show ?case
    using Cons.IH [of "min x y"] by (simp add: Min_insert2 del: Min_insert)
qed

lemma py_max_nonempty: "xs \<noteq> [] \<Longrightarrow> py_max xs = Inr (Max (set xs))"
  by (cases xs) (simp_all add: fold_max_eq del: Max_insert)

lemma py_min_nonempty: "xs \<noteq> [] \<Longrightarrow> py_min xs = Inr (Min (set xs))"
  by (cases xs) (simp_all add: fold_min_eq del: Min_insert)

lemma update_not_Nil: "AList.update k v al \<noteq> []"
  by (cases al) auto

lemma fold_dict_set_not_Nil:
  "d \<noteq> [] \<or> acc \<noteq> [] \<Longrightarrow> fold (\<lambda>(k, x) a. dict_set a k (f x)) d acc \<noteq> []"
proof (induction d arbitrary: acc)
  case Nil
  then show ?case by simp
next
  case (Cons p d)
  obtain k x where p: "p = (k, x)" by (cases p)
  have "dict_set acc k (f x) \<noteq> []" by (simp add: dict_set_def update_not_Nil)
  then show ?case using Cons.IH [of "dict_set acc k (f x)"] by (simp add: p)
qed

lemma node_counts_loop_Nil_iff: "node_counts_loop d = [] \<longleftrightarrow> d = []"
  using fold_dict_set_not_Nil [of d "[]" "\<lambda>nodes. int (length nodes)"]
  by (auto simp: node_counts_loop_def)

section \<open>Facts about the cut analysis\<close>

lemma update_present:
  "distinct (map fst c) \<Longrightarrow> k \<in> fst ` set c \<Longrightarrow>
   AList.update k v c = map (\<lambda>(k', n). (k', if k' = k then v else n)) c"
proof (induction c)
  case Nil
  then show ?case by simp
next
  case (Cons p c)
  obtain k0 n0 where p: "p = (k0, n0)" by (cases p)
  show ?case
  proof (cases "k0 = k")
    case True
    then have "k \<notin> fst ` set c" using Cons.prems(1) p by auto
    then have "map (\<lambda>(k', n). (k', if k' = k then v else n)) c = c"
      by (induction c) auto
    then show ?thesis using True p by simp
  next
    case False
    then have "k \<in> fst ` set c" using Cons.prems(2) p by auto
    moreover have "distinct (map fst c)" using Cons.prems(1) by simp
    ultimately show ?thesis using Cons.IH False p by simp
  qed
qed

lemma dict_incr_present:
  assumes "distinct (map fst c)" and "k \<in> fst ` set c"
  shows "dict_incr c k = Inr (map (\<lambda>(k', n). (k', if k' = k then n + 1 else n)) c)"
proof -
  from assms(2) obtain n where n: "map_of c k = Some n"
    by (metis domD dom_map_of_conv_image_fst)
  have "AList.update k (n + 1) c = map (\<lambda>(k', n'). (k', if k' = k then n + 1 else n')) c"
    using assms by (rule update_present)
  also have "\<dots> = map (\<lambda>(k', n'). (k', if k' = k then n' + 1 else n')) c"
  proof (rule map_cong [OF refl])
    fix x assume x: "x \<in> set c"
    obtain k' n' where kn: "x = (k', n')" by (cases x)
    have "k' = k \<Longrightarrow> n' = n"
      using x kn n assms(1) by (metis map_of_is_SomeI option.inject)
    then show "(case x of (k', n') \<Rightarrow> (k', if k' = k then n + 1 else n')) =
               (case x of (k', n') \<Rightarrow> (k', if k' = k then n' + 1 else n'))"
      by (auto simp: kn)
  qed
  finally show ?thesis
    by (simp add: dict_incr_def dict_get_def dict_set_def n)
qed

lemma partitions_loop_eq:
  "distinct (map fst ps) \<Longrightarrow> distinct (map fst c) \<Longrightarrow> fst ` set ps \<subseteq> fst ` set c \<Longrightarrow>
   partitions_loop u v ps c = (map (\<lambda>(k, n). (k, n + cut_increment u v ps k)) c, None)"
proof (induction ps arbitrary: c)
  case Nil
  have "map (\<lambda>(k, n). (k, n + cut_increment u v [] k)) c = c"
    by (induction c) (auto simp: cut_increment_def)
  then show ?case by simp
next
  case (Cons p ps)
  obtain fl nodes where p: "p = (fl, nodes)" by (cases p)
  have fresh: "map_of ps fl = None"
    using Cons.prems(1) p by (simp add: map_of_eq_None_iff)
  have dps: "distinct (map fst ps)" using Cons.prems(1) by simp
  have sub: "fst ` set ps \<subseteq> fst ` set c" using Cons.prems(3) by auto
  have inc: "fl \<in> fst ` set c" using Cons.prems(3) p by auto
  have full: "cut_increment u v (p # ps) k =
      (if k = fl then (if crosses u v nodes then 1 else 0) else cut_increment u v ps k)" for k
    by (simp add: cut_increment_def p)
  have rest0: "cut_increment u v ps fl = 0"
    by (simp add: cut_increment_def fresh)
  show ?case
  proof (cases "crosses u v nodes")
    case True
    let ?c1 = "map (\<lambda>(k', n). (k', if k' = fl then n + 1 else n)) c"
    have step: "dict_incr c fl = Inr ?c1"
      using Cons.prems(2) inc by (rule dict_incr_present)
    have keys: "map fst ?c1 = map fst c" by (induction c) auto
    have d1: "distinct (map fst ?c1)" using Cons.prems(2) by (simp only: keys)
    have s1: "fst ` set ps \<subseteq> fst ` set ?c1"
      using sub by (metis keys set_map)
    have ih: "partitions_loop u v ps ?c1 =
      (map (\<lambda>(k, n). (k, n + cut_increment u v ps k)) ?c1, None)"
      using Cons.IH [OF dps d1 s1] .
    have comb: "map (\<lambda>(k, n). (k, n + cut_increment u v ps k)) ?c1 =
      map (\<lambda>(k, n). (k, n + cut_increment u v (p # ps) k)) c"
      using True by (induction c) (auto simp: full rest0)
    have "partitions_loop u v (p # ps) c = partitions_loop u v ps ?c1"
      using True step by (auto simp: p crosses_def)
    then show ?thesis using ih comb by simp
  next
    case False
    have ih: "partitions_loop u v ps c =
      (map (\<lambda>(k, n). (k, n + cut_increment u v ps k)) c, None)"
      using Cons.IH [OF dps Cons.prems(2) sub] .
    have comb: "map (\<lambda>(k, n). (k, n + cut_increment u v ps k)) c =
      map (\<lambda>(k, n). (k, n + cut_increment u v (p # ps) k)) c"
      using False by (induction c) (auto simp: full rest0)
    have "partitions_loop u v (p # ps) c = partitions_loop u v ps c"
      using False by (auto simp: p crosses_def)
    then show ?thesis using ih comb by simp
  qed
qed


lemma map_incr_keys: "map fst (map (\<lambda>(k, n). (k, g k n)) c) = map fst c"
  by (induction c) auto

lemma partitions_loop_keys:
  "distinct (map fst ps) \<Longrightarrow> distinct (map fst c) \<Longrightarrow> fst ` set ps \<subseteq> fst ` set c \<Longrightarrow>
   map fst (fst (partitions_loop u v ps c)) = map fst c"
  using map_incr_keys [of "\<lambda>k n. n + cut_increment u v ps k" c]
  by (simp only: partitions_loop_eq fst_conv)

lemma graph_lines_loop_eq:
  "distinct (map fst d) \<Longrightarrow> distinct (map fst c) \<Longrightarrow> fst ` set d \<subseteq> fst ` set c \<Longrightarrow>
   graph_lines_loop d lines c =
     (map (\<lambda>(k, n). (k, n + (\<Sum>(u, v) \<leftarrow> recognised_edges lines. cut_increment u v d k))) c,
      None)"
proof (induction lines arbitrary: c)
  case Nil
  have "map (\<lambda>(k, n). (k, n + (0::int))) c = c" by (induction c) auto
  then show ?case by (simp add: recognised_edges_def map_filter_simps)
next
  case (Cons line lines)
  show ?case
  proof (cases "line_edge line")
    case None
    then have skip: "graph_lines_loop d (line # lines) c = graph_lines_loop d lines c"
      by (auto simp: line_edge_def Let_def split: option.splits)
    have "recognised_edges (line # lines) = recognised_edges lines"
      using None by (simp add: recognised_edges_def map_filter_simps)
    then show ?thesis
      using skip Cons.IH [OF Cons.prems] by simp
  next
    case (Some e)
    obtain u v where e: "e = (u, v)" by (cases e)
    have su: "re_search init_label (strip line) = Some u"
      and sv: "re_search term_label (strip line) = Some v"
      using Some e by (auto simp: line_edge_def split: option.splits)
    let ?c1 = "map (\<lambda>(k, n). (k, n + cut_increment u v d k)) c"
    have pl: "partitions_loop u v d c = (?c1, None)"
      using Cons.prems by (rule partitions_loop_eq)
    have keys: "map fst ?c1 = map fst c" by (rule map_incr_keys)
    have d1: "distinct (map fst ?c1)" using Cons.prems(2) by (simp only: keys)
    have s1: "fst ` set d \<subseteq> fst ` set ?c1"
      using Cons.prems(3) by (metis keys set_map)
    have step: "graph_lines_loop d (line # lines) c = graph_lines_loop d lines ?c1"
      by (simp add: Let_def su sv pl)
    have edges: "recognised_edges (line # lines) = (u, v) # recognised_edges lines"
      using Some e by (simp add: recognised_edges_def map_filter_simps)
    have comb: "map (\<lambda>(k, n). (k, n + (\<Sum>(u, v) \<leftarrow> recognised_edges lines. cut_increment u v d k))) ?c1
      = map (\<lambda>(k, n). (k, n + (\<Sum>(u, v) \<leftarrow> recognised_edges (line # lines). cut_increment u v d k))) c"
      by (induction c) (auto simp: edges)
    show ?thesis
      using Cons.IH [OF Cons.prems(1) d1 s1] step comb by simp
  qed
qed

lemma zero_counts_eq: "is_dict d \<Longrightarrow> zero_counts d = map (\<lambda>(k, nodes). (k, 0)) d"
  using fold_dict_set_fresh [of d "[]" "\<lambda>nodes. 0::int"]
  by (simp add: zero_counts_def is_dict_def)

lemma sum_cut_increment:
  "map_of d k = Some nodes \<Longrightarrow>
   (\<Sum>(u, v) \<leftarrow> es. cut_increment u v d k) = int (length (filter (\<lambda>(u, v). crosses u v nodes) es))"
  by (induction es) (auto simp: cut_increment_def)


lemma fold_best:
  "case fold (\<lambda>(k', v') (bk, bv). if v' > bv then (k', v') else (bk, bv)) kvs (bk, bv::int) of
     (rk, rv) \<Rightarrow> rv = Max (insert bv (snd ` set kvs)) \<and>
       find (\<lambda>kv. snd kv = rv) ((bk, bv) # kvs) = Some (rk, rv)"
proof (induction kvs arbitrary: bk bv)
  case Nil
  then show ?case by simp
next
  case (Cons p kvs)
  obtain k' v' where p: "p = (k', v')" by (cases p)
  let ?step = "\<lambda>(k', v') (bk, bv::int). if v' > bv then (k', v') else (bk, bv)"
  show ?case
  proof (cases "v' > bv")
    case True
    obtain rk rv where r: "fold ?step kvs (k', v') = (rk, rv)" by (cases "fold ?step kvs (k', v')")
    from Cons.IH [where bk = k' and bv = v'] r
    have rv: "rv = Max (insert v' (snd ` set kvs))"
      and f: "find (\<lambda>kv. snd kv = rv) ((k', v') # kvs) = Some (rk, rv)" by auto
    have "v' \<le> rv" unfolding rv by simp
    then have ne: "bv \<noteq> rv" using True by simp
    have mx: "Max (insert bv (snd ` set (p # kvs))) = rv"
      using True unfolding rv p by (simp add: Max_insert2 max_def del: Max_insert)
    have "fold ?step (p # kvs) (bk, bv) = (rk, rv)"
      using True r by (simp add: p)
    then show ?thesis using mx f ne by (simp add: p)
  next
    case False
    obtain rk rv where r: "fold ?step kvs (bk, bv) = (rk, rv)" by (cases "fold ?step kvs (bk, bv)")
    from Cons.IH [where bk = bk and bv = bv] r
    have rv: "rv = Max (insert bv (snd ` set kvs))"
      and f: "find (\<lambda>kv. snd kv = rv) ((bk, bv) # kvs) = Some (rk, rv)" by auto
    have le: "bv \<le> rv" unfolding rv by simp
    have mx: "Max (insert bv (snd ` set (p # kvs))) = rv"
    proof -
      have "Max (insert bv (insert v' (snd ` set kvs))) = Max (insert v' (insert bv (snd ` set kvs)))"
        by (simp only: insert_commute)
      also have "\<dots> = Max (insert (max v' bv) (snd ` set kvs))"
        by (rule Max_insert2) simp
      also have "max v' bv = bv" using False by simp
      finally show ?thesis by (simp add: p rv del: Max_insert)
    qed
    have f': "find (\<lambda>kv. snd kv = rv) ((bk, bv) # p # kvs) = Some (rk, rv)"
    proof (cases "bv = rv")
      case True
      then show ?thesis using f by simp
    next
      case ne: False
      then have "v' \<noteq> rv" using False le by simp
      then show ?thesis using f ne by (simp add: p)
    qed
    have "fold ?step (p # kvs) (bk, bv) = (rk, rv)"
      using False r by (simp add: p)
    then show ?thesis using mx f' by simp
  qed
qed

lemma py_max_key_first:
  assumes "c \<noteq> []"
  shows "\<exists>p. py_max_key c = Inr p \<and>
    find (\<lambda>kv. snd kv = Max (snd ` set c)) c = Some (p, Max (snd ` set c))"
proof -
  from assms obtain k v kvs where c: "c = (k, v) # kvs" by (cases c) auto
  let ?step = "\<lambda>(k', v') (bk, bv::int). if v' > bv then (k', v') else (bk, bv)"
  obtain rk rv where r: "fold ?step kvs (k, v) = (rk, rv)" by (cases "fold ?step kvs (k, v)")
  from fold_best [where kvs = kvs and bk = k and bv = v] r
  have rv: "rv = Max (insert v (snd ` set kvs))"
    and f: "find (\<lambda>kv. snd kv = rv) ((k, v) # kvs) = Some (rk, rv)" by auto
  have m: "Max (snd ` set c) = rv" by (simp add: c rv del: Max_insert)
  have pk: "py_max_key c = Inr rk" by (simp add: c r)
  have "find (\<lambda>kv. snd kv = Max (snd ` set c)) c = Some (rk, Max (snd ` set c))"
    unfolding m using f by (simp only: c)
  with pk show ?thesis by blast
qed

lemma count_edges_readable:
  assumes "is_dict d" and "fs g = Inr content"
  shows "count_edges_in_cut_and_max_partition fs g d =
    (let c = map (\<lambda>(k, nodes). (k, cut_count nodes (readlines content))) d in
     case py_max_key c of
       Inl e \<Rightarrow> ((c, None), Some e)
     | Inr max_partition \<Rightarrow> ((c, Some max_partition), None))"
proof -
  let ?z = "map (\<lambda>(k, nodes). (k, 0::int)) d"
  let ?ls = "readlines content"
  have dd: "distinct (map fst d)" using assms(1) by (simp add: is_dict_def)
  have kz: "map fst ?z = map fst d" by (induction d) auto
  have dz: "distinct (map fst ?z)" using dd by (simp only: kz)
  have sz: "fst ` set d \<subseteq> fst ` set ?z" by (metis kz set_map subset_refl)
  have loop: "graph_lines_loop d ?ls ?z =
    (map (\<lambda>(k, n). (k, n + (\<Sum>(u, v) \<leftarrow> recognised_edges ?ls. cut_increment u v d k))) ?z, None)"
    using dd dz sz by (rule graph_lines_loop_eq)
  have "map (\<lambda>(k, n). (k, n + (\<Sum>(u, v) \<leftarrow> recognised_edges ?ls. cut_increment u v d k))) ?z
    = map (\<lambda>(k, nodes). (k, (\<Sum>(u, v) \<leftarrow> recognised_edges ?ls. cut_increment u v d k))) d"
    by (simp add: case_prod_unfold)
  also have "\<dots> = map (\<lambda>(k, nodes). (k, cut_count nodes ?ls)) d"
  proof (rule map_cong [OF refl])
    fix x assume x: "x \<in> set d"
    obtain k nodes where kn: "x = (k, nodes)" by (cases x)
    have "map_of d k = Some nodes" using x kn dd by simp
    then show "(case x of (k, nodes) \<Rightarrow> (k, \<Sum>(u, v) \<leftarrow> recognised_edges ?ls. cut_increment u v d k))
      = (case x of (k, nodes) \<Rightarrow> (k, cut_count nodes ?ls))"
      by (simp add: kn cut_count_def sum_cut_increment)
  qed
  finally have loop': "graph_lines_loop d ?ls (zero_counts d) =
    (map (\<lambda>(k, nodes). (k, cut_count nodes ?ls)) d, None)"
    using loop by (simp only: zero_counts_eq [OF assms(1)])
  show ?thesis
    by (simp add: count_edges_in_cut_and_max_partition_def assms(2) loop' Let_def)
qed

section \<open>Properties of the balance analysis\<close>

text \<open>
  Claim C7. For every dictionary of partitions with at least one partition,
  \<open>count_nodes_in_partitions_and_diff\<close> returns normally: the counts map every partition
  label, in the order of the input, to the length of its node list, and the difference is
  the greatest count minus the least. The difference is 0 when all partitions have the same
  size, and the count of a partition whose list has no repetition (as the lists built by
  the extractor) is the cardinality of its node set. The result is a function of the input
  mapping alone.
\<close>

theorem balance_counts_and_diff:
  assumes "is_dict d" and "d \<noteq> []"
  shows "\<exists>counts diff.
           count_nodes_in_partitions_and_diff d = Inr (counts, diff)
         \<and> counts = map (\<lambda>(file, nodes). (file, int (length nodes))) d
         \<and> diff = Max (snd ` set counts) - Min (snd ` set counts)
         \<and> ((\<forall>p \<in> set d. \<forall>q \<in> set d. length (snd p) = length (snd q)) \<longrightarrow> diff = 0)
         \<and> (\<forall>(file, nodes) \<in> set d.
               distinct nodes \<longrightarrow> map_of counts file = Some (int (card (set nodes))))"
proof -
  let ?counts = "map (\<lambda>(file, nodes). (file, int (length nodes))) d"
  let ?vals = "snd ` set ?counts"
  let ?diff = "Max ?vals - Min ?vals"
  have loop: "node_counts_loop d = ?counts"
    using assms(1) by (rule node_counts_loop_eq)
  have ne: "map snd ?counts \<noteq> []" using assms(2) by simp
  have mx: "py_max (map snd ?counts) = Inr (Max ?vals)"
    using py_max_nonempty [OF ne] by (simp only: set_map)
  have mn: "py_min (map snd ?counts) = Inr (Min ?vals)"
    using py_min_nonempty [OF ne] by (simp only: set_map)
  have run: "count_nodes_in_partitions_and_diff d = Inr (?counts, ?diff)"
    unfolding count_nodes_in_partitions_and_diff_def loop Let_def
    by (simp only: mx mn sum.case)
  have vals: "?vals = (\<lambda>p. int (length (snd p))) ` set d"
    by (simp add: image_image case_prod_unfold)
  have eq0: "?diff = 0" if eq: "\<forall>p \<in> set d. \<forall>q \<in> set d. length (snd p) = length (snd q)"
  proof -
    obtain p0 where p0: "p0 \<in> set d" using assms(2) by (cases d) auto
    have c: "length (snd p) = length (snd p0)" if "p \<in> set d" for p
      using eq that p0 by blast
    have "(\<lambda>p. int (length (snd p))) ` set d = {int (length (snd p0))}"
    proof (intro equalityI subsetI)
      fix x
      assume "x \<in> (\<lambda>p. int (length (snd p))) ` set d"
      then obtain p where p: "p \<in> set d" and x: "x = int (length (snd p))"
        by blast
      from c [OF p] x show "x \<in> {int (length (snd p0))}"
        by (simp only: singleton_iff)
    next
      fix x
      assume "x \<in> {int (length (snd p0))}"
      then have "x = int (length (snd p0))" by (simp only: singleton_iff)
      with p0 show "x \<in> (\<lambda>p. int (length (snd p))) ` set d"
        by (rule_tac image_eqI)
    qed
    then have "?vals = {int (length (snd p0))}"
      by (simp only: vals)
    then show ?thesis by (simp only: Max_singleton Min_singleton diff_self)
  qed
  have card: "map_of ?counts f = Some (int (card (set ns)))"
    if "(f, ns) \<in> set d" and "distinct ns" for f ns
  proof -
    have "map_of d f = Some ns"
      using assms(1) that(1) by (simp add: is_dict_def)
    then have "map_of ?counts f = Some (int (length ns))"
      by (simp add: map_of_map)
    then show ?thesis using that(2) by (simp only: distinct_card)
  qed
  have card': "\<forall>(file, nodes) \<in> set d.
      distinct nodes \<longrightarrow> map_of ?counts file = Some (int (card (set nodes)))"
  proof (rule ballI)
    fix p
    assume p: "p \<in> set d"
    obtain f ns where fn: "p = (f, ns)" by (cases p)
    show "case p of (file, nodes) \<Rightarrow>
      distinct nodes \<longrightarrow> map_of ?counts file = Some (int (card (set nodes)))"
      using card [of f ns] p by (simp only: fn case_prod_conv) blast
  qed
  show ?thesis
    apply (rule exI [of _ ?counts], rule exI [of _ ?diff])
    apply (intro conjI)
    apply (rule run)
    apply (rule refl)
    apply (rule refl)
    apply (rule impI, erule eq0)
    apply (rule card')
    done
qed

theorem balance_counts_and_diff_witness:
  "is_dict [(''A'', [''1'', ''2'']), (''B'', [''3''])]
   \<and> count_nodes_in_partitions_and_diff [(''A'', [''1'', ''2'']), (''B'', [''3''])]
       = Inr ([(''A'', 2), (''B'', 1)], 1)"
  using balance_counts_and_diff [of "[(''A'', [''1'', ''2'']), (''B'', [''3''])]"]
  by (simp add: is_dict_def)

text \<open>
  Claim C8. With zero partitions the balance analysis raises (the ValueError of \<^verbatim>\<open>max\<close> on
  an empty sequence, which nothing in the function catches); it returns a value exactly
  when the mapping holds at least one partition.
\<close>

theorem balance_empty_raises:
  "(count_nodes_in_partitions_and_diff d = Inl (ValueError empty_max_msg) \<longleftrightarrow> d = [])
   \<and> ((\<exists>r. count_nodes_in_partitions_and_diff d = Inr r) \<longleftrightarrow> d \<noteq> [])"
proof (cases "d = []")
  case True
  then show ?thesis
    by (simp add: count_nodes_in_partitions_and_diff_def node_counts_loop_def)
next
  case False
  then have ne: "map snd (node_counts_loop d) \<noteq> []"
    by (simp add: node_counts_loop_Nil_iff)
  show ?thesis
    unfolding count_nodes_in_partitions_and_diff_def Let_def
    using False py_max_nonempty [OF ne] py_min_nonempty [OF ne] by simp
qed

section \<open>More facts about the cut analysis\<close>

lemma counter_map_incr:
  "counter (map (\<lambda>(k, n). (k, n + g k)) c) P = counter c P + (if P \<in> fst ` set c then g P else 0)"
  by (induction c) (auto simp: counter_def)

lemma filter_map_filter_length:
  "length (filter P (List.map_filter f ls)) =
   length (filter (\<lambda>l. case f l of None \<Rightarrow> False | Some e \<Rightarrow> P e) ls)"
  by (induction ls) (auto simp: map_filter_simps split: option.splits)

lemma cut_count_set_cong: "set ns = set ns' \<Longrightarrow> cut_count ns ls = cut_count ns' ls"
  by (simp add: cut_count_def crosses_def)

lemma same_sets_same_counts:
  "list_all2 (\<lambda>x y. fst x = fst y \<and> set (snd x) = set (snd y)) d d' \<Longrightarrow>
   map (\<lambda>(k, nodes). (k, cut_count nodes ls)) d = map (\<lambda>(k, nodes). (k, cut_count nodes ls)) d'"
proof (induction rule: list_all2_induct)
  case Nil
  then show ?case by simp
next
  case (Cons x xs y ys)
  then show ?case
    using cut_count_set_cong [of "snd x" "snd y" ls] by (simp add: case_prod_unfold)
qed

lemma same_sets_same_keys:
  "list_all2 (\<lambda>x y. fst x = fst y \<and> set (snd x) = set (snd y)) d d' \<Longrightarrow> map fst d = map fst d'"
  by (induction rule: list_all2_induct) auto

lemmas eval_defs = count_edges_in_cut_and_max_partition_def zero_counts_def dict_set_def
  dict_incr_def dict_get_def readlines_def LF_def CR_def init_label_def term_label_def
  strip_def is_space_def match_here_def is_digit_or_dot_def

lemma cut_count_lines:
  "cut_count nodes ls = int (length (filter
     (\<lambda>line. case line_edge line of
                None \<Rightarrow> False
              | Some (u, v) \<Rightarrow> (u \<in> set nodes) \<noteq> (v \<in> set nodes)) ls))"
  unfolding cut_count_def recognised_edges_def filter_map_filter_length crosses_def ..

lemma final_counts:
  assumes "is_dict d" and "fs g = Inr content"
  shows "fst (fst (count_edges_in_cut_and_max_partition fs g d)) =
      map (\<lambda>(k, nodes). (k, cut_count nodes (readlines content))) d"
  unfolding count_edges_readable [where fs = fs and g = g, OF assms]
  by (simp add: Let_def split: sum.splits)

lemma counter_of_map:
  "map_of d p = Some nodes \<Longrightarrow> counter (map (\<lambda>(k, nodes). (k, f nodes)) d) p = f nodes"
  by (simp add: counter_def map_of_map)

section \<open>Properties of the cut analysis\<close>

lemma partitions_loop_xor:
  assumes "is_dict d" and "is_dict c" and "map fst c = map fst d"
  shows "\<exists>c'. partitions_loop u v d c = (c', None)
    \<and> (\<forall>(P, ps) \<in> set d.
          counter c' P = counter c P + (if (u \<in> set ps) \<noteq> (v \<in> set ps) then 1 else 0))
    \<and> (\<forall>(P, ps) \<in> set d. u \<in> set ps \<and> v \<in> set ps \<longrightarrow> counter c' P = counter c P)
    \<and> (\<forall>(P, ps) \<in> set d. \<forall>(Q, qs) \<in> set d.
          P \<noteq> Q \<and> u \<in> set ps \<and> v \<in> set qs \<and> only_in u P d \<and> only_in v Q d \<longrightarrow>
            counter c' P = counter c P + 1 \<and> counter c' Q = counter c Q + 1
            \<and> (\<forall>(R, rs) \<in> set d. R \<noteq> P \<and> R \<noteq> Q \<longrightarrow> counter c' R = counter c R))
    \<and> (\<forall>(P, ps) \<in> set d. u \<in> set ps \<and> only_in u P d \<and> in_no_partition v d \<longrightarrow>
            counter c' P = counter c P + 1
            \<and> (\<forall>(R, rs) \<in> set d. R \<noteq> P \<longrightarrow> counter c' R = counter c R))"
proof -
  let ?c' = "map (\<lambda>(k, n). (k, n + cut_increment u v d k)) c"
  have dd: "distinct (map fst d)" using assms(1) by (simp add: is_dict_def)
  have dc: "distinct (map fst c)" using assms(2) by (simp add: is_dict_def)
  have sub: "fst ` set d \<subseteq> fst ` set c" by (metis assms(3) set_map subset_refl)
  have run: "partitions_loop u v d c = (?c', None)"
    using dd dc sub by (rule partitions_loop_eq)
  have main: "counter ?c' P = counter c P + (if (u \<in> set ps) \<noteq> (v \<in> set ps) then 1 else 0)"
    if "(P, ps) \<in> set d" for P ps
  proof -
    have "map_of d P = Some ps" using that dd by simp
    then have "cut_increment u v d P = (if (u \<in> set ps) \<noteq> (v \<in> set ps) then 1 else 0)"
      by (simp add: cut_increment_def crosses_def)
    moreover have "P \<in> fst ` set c" using that sub by force
    ultimately show ?thesis by (simp add: counter_map_incr)
  qed
  have a: "\<forall>(P, ps) \<in> set d.
      counter ?c' P = counter c P + (if (u \<in> set ps) \<noteq> (v \<in> set ps) then 1 else 0)"
    using main by blast
  have b: "\<forall>(P, ps) \<in> set d. u \<in> set ps \<and> v \<in> set ps \<longrightarrow> counter ?c' P = counter c P"
  proof (intro ballI, clarify)
    fix P ps assume "(P, ps) \<in> set d" "u \<in> set ps" "v \<in> set ps"
    then show "counter ?c' P = counter c P" using main [of P ps] by simp
  qed
  have only: "w \<notin> set rs"
    if "only_in w P d" "(R, rs) \<in> set d" "R \<noteq> P" for w P R rs
    using that unfolding only_in_def by blast
  have c3: "(\<forall>(P, ps) \<in> set d. \<forall>(Q, qs) \<in> set d.
          P \<noteq> Q \<and> u \<in> set ps \<and> v \<in> set qs \<and> only_in u P d \<and> only_in v Q d \<longrightarrow>
            counter ?c' P = counter c P + 1 \<and> counter ?c' Q = counter c Q + 1
            \<and> (\<forall>(R, rs) \<in> set d. R \<noteq> P \<and> R \<noteq> Q \<longrightarrow> counter ?c' R = counter c R))"
  proof (intro ballI, clarify)
    fix P ps Q qs
    assume P: "(P, ps) \<in> set d" and Q: "(Q, qs) \<in> set d"
      and ne: "P \<noteq> Q" and u: "u \<in> set ps" and v: "v \<in> set qs"
      and ou: "only_in u P d" and ov: "only_in v Q d"
    have vP: "v \<notin> set ps" using only [OF ov P ne] .
    have uQ: "u \<notin> set qs" using only [OF ou Q] ne by blast
    have 1: "counter ?c' P = counter c P + 1" using main [OF P] u vP by simp
    have 2: "counter ?c' Q = counter c Q + 1" using main [OF Q] v uQ by simp
    have 3: "\<forall>(R, rs) \<in> set d. R \<noteq> P \<and> R \<noteq> Q \<longrightarrow> counter ?c' R = counter c R"
    proof (intro ballI, clarify)
      fix R rs assume R: "(R, rs) \<in> set d" and nP: "R \<noteq> P" and nQ: "R \<noteq> Q"
      have "u \<notin> set rs" using only [OF ou R nP] .
      moreover have "v \<notin> set rs" using only [OF ov R nQ] .
      ultimately show "counter ?c' R = counter c R" using main [OF R] by simp
    qed
    show "counter ?c' P = counter c P + 1 \<and> counter ?c' Q = counter c Q + 1
      \<and> (\<forall>(R, rs) \<in> set d. R \<noteq> P \<and> R \<noteq> Q \<longrightarrow> counter ?c' R = counter c R)"
      using 1 2 3 by blast
  qed
  have c4: "(\<forall>(P, ps) \<in> set d. u \<in> set ps \<and> only_in u P d \<and> in_no_partition v d \<longrightarrow>
            counter ?c' P = counter c P + 1
            \<and> (\<forall>(R, rs) \<in> set d. R \<noteq> P \<longrightarrow> counter ?c' R = counter c R))"
  proof (intro ballI, clarify)
    fix P ps
    assume P: "(P, ps) \<in> set d" and u: "u \<in> set ps"
      and ou: "only_in u P d" and orphan: "in_no_partition v d"
    have vn: "v \<notin> set qs" if "(Q, qs) \<in> set d" for Q qs
      using orphan that unfolding in_no_partition_def by blast
    have 1: "counter ?c' P = counter c P + 1" using main [OF P] u vn [OF P] by simp
    have 3: "\<forall>(R, rs) \<in> set d. R \<noteq> P \<longrightarrow> counter ?c' R = counter c R"
    proof (intro ballI, clarify)
      fix R rs assume R: "(R, rs) \<in> set d" and nP: "R \<noteq> P"
      have "u \<notin> set rs" using only [OF ou R nP] .
      then show "counter ?c' R = counter c R" using main [OF R] vn [OF R] by simp
    qed
    show "counter ?c' P = counter c P + 1
      \<and> (\<forall>(R, rs) \<in> set d. R \<noteq> P \<longrightarrow> counter ?c' R = counter c R)"
      using 1 3 by blast
  qed
  show ?thesis
    apply (rule exI [of _ ?c'])
    apply (intro conjI)
    apply (rule run)
    apply (rule a)
    apply (rule b)
    apply (rule c3)
    apply (rule c4)
    done
qed

text \<open>
  Claim C1 as stated fails where two partitions share a node: the edge from 1 to 9 has one
  endpoint in \<open>P\<close> and the other in no partition, and it adds 1 to the counter of \<open>Q\<close> as
  well as to that of \<open>P\<close>, since \<open>Q\<close> holds node 1 too.
\<close>

theorem shared_node_counts_twice:
  "partitions_loop ''1'' ''9'' overlapping_partitions [(''P'', 0), (''Q'', 0)]
     = ([(''P'', 1), (''Q'', 1)], None)
   \<and> count_edges_in_cut_and_max_partition overlapping_fs ''G'' overlapping_partitions
     = (([(''P'', 1), (''Q'', 1)], Some ''P''), None)"
  by (simp add: overlapping_partitions_def overlapping_fs_def overlapping_graph_def eval_defs)

text \<open>
  Claim C1, as amended. For an edge \<open>(u, v)\<close> read from the graph, the loop over the
  partitions adds exactly 1 to the counter of a partition \<open>P\<close> when exactly one of \<open>u\<close>,
  \<open>v\<close> is in the node list of \<open>P\<close>, and 0 otherwise, and raises nothing; so the final
  counter of \<open>P\<close>, when the graph file is read, is the number of edges read with exactly
  one endpoint in \<open>P\<close>. Hence an edge with both endpoints in \<open>P\<close> adds 0 to \<open>P\<close>; an edge
  with \<open>u\<close> in \<open>P\<close> and in no other partition and \<open>v\<close> in a different partition \<open>Q\<close> and in
  no other partition adds 1 to each of \<open>P\<close> and \<open>Q\<close> and 0 to every other partition; and an
  edge with \<open>u\<close> in \<open>P\<close> and in no other partition and \<open>v\<close> in no partition adds 1 to \<open>P\<close>
  only. The counters are those of the cut analysis: a dictionary with the keys of the
  partitions.
\<close>

theorem cut_counter_xor:
  assumes "is_dict d" and "is_dict c" and "map fst c = map fst d"
  shows "(\<exists>c'. partitions_loop u v d c = (c', None)
    \<and> (\<forall>(P, ps) \<in> set d.
          counter c' P = counter c P + (if (u \<in> set ps) \<noteq> (v \<in> set ps) then 1 else 0))
    \<and> (\<forall>(P, ps) \<in> set d. u \<in> set ps \<and> v \<in> set ps \<longrightarrow> counter c' P = counter c P)
    \<and> (\<forall>(P, ps) \<in> set d. \<forall>(Q, qs) \<in> set d.
          P \<noteq> Q \<and> u \<in> set ps \<and> v \<in> set qs \<and> only_in u P d \<and> only_in v Q d \<longrightarrow>
            counter c' P = counter c P + 1 \<and> counter c' Q = counter c Q + 1
            \<and> (\<forall>(R, rs) \<in> set d. R \<noteq> P \<and> R \<noteq> Q \<longrightarrow> counter c' R = counter c R))
    \<and> (\<forall>(P, ps) \<in> set d. u \<in> set ps \<and> only_in u P d \<and> in_no_partition v d \<longrightarrow>
            counter c' P = counter c P + 1
            \<and> (\<forall>(R, rs) \<in> set d. R \<noteq> P \<longrightarrow> counter c' R = counter c R)))
    \<and> (\<forall>fs g content. fs g = Inr content \<longrightarrow>
          (\<forall>(P, ps) \<in> set d.
             counter (fst (fst (count_edges_in_cut_and_max_partition fs g d))) P =
               int (length (filter (\<lambda>(u, v). (u \<in> set ps) \<noteq> (v \<in> set ps))
                              (recognised_edges (readlines content))))))"
proof (rule conjI)
  show "\<exists>c'. partitions_loop u v d c = (c', None)
    \<and> (\<forall>(P, ps) \<in> set d.
          counter c' P = counter c P + (if (u \<in> set ps) \<noteq> (v \<in> set ps) then 1 else 0))
    \<and> (\<forall>(P, ps) \<in> set d. u \<in> set ps \<and> v \<in> set ps \<longrightarrow> counter c' P = counter c P)
    \<and> (\<forall>(P, ps) \<in> set d. \<forall>(Q, qs) \<in> set d.
          P \<noteq> Q \<and> u \<in> set ps \<and> v \<in> set qs \<and> only_in u P d \<and> only_in v Q d \<longrightarrow>
            counter c' P = counter c P + 1 \<and> counter c' Q = counter c Q + 1
            \<and> (\<forall>(R, rs) \<in> set d. R \<noteq> P \<and> R \<noteq> Q \<longrightarrow> counter c' R = counter c R))
    \<and> (\<forall>(P, ps) \<in> set d. u \<in> set ps \<and> only_in u P d \<and> in_no_partition v d \<longrightarrow>
            counter c' P = counter c P + 1
            \<and> (\<forall>(R, rs) \<in> set d. R \<noteq> P \<longrightarrow> counter c' R = counter c R))"
    using assms by (rule partitions_loop_xor)
next
  show "\<forall>fs g content. fs g = Inr content \<longrightarrow>
          (\<forall>(P, ps) \<in> set d.
             counter (fst (fst (count_edges_in_cut_and_max_partition fs g d))) P =
               int (length (filter (\<lambda>(u, v). (u \<in> set ps) \<noteq> (v \<in> set ps))
                              (recognised_edges (readlines content)))))"
  proof (intro allI impI ballI, clarify)
    fix fs :: filesystem and g content P ps
    assume r: "fs g = Inr content" and P: "(P, ps) \<in> set d"
    have "map_of d P = Some ps" using P assms(1) by (simp add: is_dict_def)
    then have "counter (fst (fst (count_edges_in_cut_and_max_partition fs g d))) P
        = cut_count ps (readlines content)"
      unfolding final_counts [where fs = fs and g = g, OF assms(1) r]
      by (rule counter_of_map)
    then show "counter (fst (fst (count_edges_in_cut_and_max_partition fs g d))) P =
               int (length (filter (\<lambda>(u, v). (u \<in> set ps) \<noteq> (v \<in> set ps))
                              (recognised_edges (readlines content))))"
      by (simp only: cut_count_def crosses_def)
  qed
qed

theorem cut_counter_xor_witness:
  "is_dict example_partitions \<and> is_dict [(''A'', 0), (''B'', 0::int)]
   \<and> only_in ''2'' ''A'' example_partitions \<and> only_in ''3'' ''B'' example_partitions
   \<and> partitions_loop ''2'' ''3'' example_partitions [(''A'', 0), (''B'', 0)]
        = ([(''A'', 1), (''B'', 1)], None)
   \<and> (\<exists>c'. partitions_loop ''2'' ''3'' example_partitions [(''A'', 0), (''B'', 0)] = (c', None)
         \<and> counter c' ''A'' = counter [(''A'', 0), (''B'', 0)] ''A'' + 1
         \<and> counter c' ''B'' = counter [(''A'', 0), (''B'', 0)] ''B'' + 1)"
proof -
  have h1: "is_dict example_partitions"
    by (simp add: is_dict_def example_partitions_def)
  have h2: "is_dict [(''A'', 0), (''B'', 0::int)]"
    by (simp add: is_dict_def)
  have h3: "map fst [(''A'', 0), (''B'', 0::int)] = map fst example_partitions"
    by (simp add: example_partitions_def)
  have h4: "only_in ''2'' ''A'' example_partitions"
    and h5: "only_in ''3'' ''B'' example_partitions"
    by (simp_all add: only_in_def example_partitions_def)
  have A: "(''A'', [''1'', ''2'']) \<in> set example_partitions"
    and B: "(''B'', [''3'']) \<in> set example_partitions"
    by (simp_all add: example_partitions_def)
  have run: "partitions_loop ''2'' ''3'' example_partitions [(''A'', 0), (''B'', 0)]
        = ([(''A'', 1), (''B'', 1)], None)"
    by (simp add: example_partitions_def dict_incr_def dict_get_def dict_set_def)
  from cut_counter_xor [where u = "''2''" and v = "''3''", OF h1 h2 h3, THEN conjunct1]
  obtain c' where c': "partitions_loop ''2'' ''3'' example_partitions [(''A'', 0), (''B'', 0)] = (c', None)"
    and two: "\<forall>(P, ps) \<in> set example_partitions. \<forall>(Q, qs) \<in> set example_partitions.
        P \<noteq> Q \<and> ''2'' \<in> set ps \<and> ''3'' \<in> set qs
        \<and> only_in ''2'' P example_partitions \<and> only_in ''3'' Q example_partitions \<longrightarrow>
        counter c' P = counter [(''A'', 0), (''B'', 0)] P + 1
        \<and> counter c' Q = counter [(''A'', 0), (''B'', 0)] Q + 1
        \<and> (\<forall>(R, rs) \<in> set example_partitions. R \<noteq> P \<and> R \<noteq> Q \<longrightarrow>
              counter c' R = counter [(''A'', 0), (''B'', 0)] R)"
    by blast
  from two A B h4 h5 have "counter c' ''A'' = counter [(''A'', 0), (''B'', 0)] ''A'' + 1
      \<and> counter c' ''B'' = counter [(''A'', 0), (''B'', 0)] ''B'' + 1"
    by fastforce
  with c' h1 h2 h4 h5 run show ?thesis by blast
qed

text \<open>
  Claim C4. When the graph file is read, the counters keep the labels of the partitions in
  their insertion order, and the partition returned by
  \<open>count_edges_in_cut_and_max_partition\<close> is the first one in that order whose counter is
  the maximum: every counter before it is strictly smaller. No partition is returned
  exactly when there is no partition at all. The result is a function of its inputs, and it
  stays the same when the node lists are given in another order or with repetitions, the
  labels being supplied in the same order.
\<close>

theorem argmax_first_maximum:
  assumes "is_dict d" and "fs g = Inr content"
  shows "\<exists>c mp. fst (count_edges_in_cut_and_max_partition fs g d) = (c, mp)
    \<and> map fst c = map fst d
    \<and> (mp = None \<longleftrightarrow> d = [])
    \<and> (\<forall>p. mp = Some p \<longrightarrow>
          (\<exists>i < length c. c ! i = (p, Max (snd ` set c))
             \<and> (\<forall>j < i. snd (c ! j) < Max (snd ` set c))))
    \<and> (\<forall>d'. list_all2 (\<lambda>x y. fst x = fst y \<and> set (snd x) = set (snd y)) d d' \<longrightarrow>
          count_edges_in_cut_and_max_partition fs g d'
            = count_edges_in_cut_and_max_partition fs g d)"
proof -
  let ?ls = "readlines content"
  let ?c = "map (\<lambda>(k, nodes). (k, cut_count nodes ?ls)) d"
  let ?m = "Max (snd ` set ?c)"
  have keys: "map fst ?c = map fst d" by (induction d) auto
  have det: "count_edges_in_cut_and_max_partition fs g d'
            = count_edges_in_cut_and_max_partition fs g d"
    if rel: "list_all2 (\<lambda>x y. fst x = fst y \<and> set (snd x) = set (snd y)) d d'" for d'
  proof -
    have "map fst d = map fst d'" using rel by (rule same_sets_same_keys)
    then have d': "is_dict d'" using assms(1) by (simp add: is_dict_def)
    have "map (\<lambda>(k, nodes). (k, cut_count nodes ?ls)) d'
      = map (\<lambda>(k, nodes). (k, cut_count nodes ?ls)) d"
      using same_sets_same_counts [OF rel, of ?ls] by simp
    then show ?thesis
      by (simp only: count_edges_readable [where fs = fs and g = g, OF d' assms(2)]
          count_edges_readable [where fs = fs and g = g, OF assms(1) assms(2)])
  qed
  show ?thesis
  proof (cases "d = []")
    case True
    have "fst (count_edges_in_cut_and_max_partition fs g d) = (?c, None)"
      unfolding count_edges_readable [where fs = fs and g = g, OF assms]
      by (simp add: True)
    then show ?thesis using True keys det by blast
  next
    case False
    then have ne: "?c \<noteq> []" by simp
    from py_max_key_first [OF ne] obtain p where pk: "py_max_key ?c = Inr p"
      and f: "find (\<lambda>kv. snd kv = ?m) ?c = Some (p, ?m)" by blast
    from f obtain i where i: "i < length ?c" and ci: "?c ! i = (p, ?m)"
      and before: "\<forall>j < i. snd (?c ! j) \<noteq> ?m"
      unfolding find_Some_iff by metis
    have lt: "\<forall>j < i. snd (?c ! j) < ?m"
    proof (intro allI impI)
      fix j assume j: "j < i"
      then have "?c ! j \<in> set ?c" using i by (meson less_trans nth_mem)
      then have "snd (?c ! j) \<le> ?m" by (meson List.finite_set Max_ge finite_imageI imageI)
      with before j show "snd (?c ! j) < ?m" by (simp only: order.strict_iff_order) blast
    qed
    have res: "fst (count_edges_in_cut_and_max_partition fs g d) = (?c, Some p)"
      by (simp only: count_edges_readable [where fs = fs and g = g, OF assms] Let_def pk sum.case fst_conv)
    have idx: "\<forall>q. Some p = Some q \<longrightarrow>
          (\<exists>i < length ?c. ?c ! i = (q, ?m) \<and> (\<forall>j < i. snd (?c ! j) < ?m))"
      using i ci lt by blast
    show ?thesis
      apply (rule exI [of _ ?c], rule exI [of _ "Some p"])
      apply (intro conjI)
      apply (rule res)
      apply (rule keys)
      using False apply simp
      apply (rule idx)
      using det apply blast
      done
  qed
qed

theorem argmax_first_maximum_witness:
  "is_dict example_partitions \<and> example_fs ''graph'' = Inr example_graph
   \<and> count_edges_in_cut_and_max_partition example_fs ''graph'' example_partitions
        = (([(''A'', 1), (''B'', 1)], Some ''A''), None)
   \<and> count_edges_in_cut_and_max_partition example_fs ''graph''
        [(''A'', [''2'', ''1'', ''2'']), (''B'', [''3''])]
        = (([(''A'', 1), (''B'', 1)], Some ''A''), None)"
proof -
  have h1: "is_dict example_partitions"
    by (simp add: is_dict_def example_partitions_def)
  have h2: "example_fs ''graph'' = Inr example_graph"
    by (simp add: example_fs_def)
  have run: "count_edges_in_cut_and_max_partition example_fs ''graph'' example_partitions
        = (([(''A'', 1), (''B'', 1)], Some ''A''), None)"
    by (simp add: eval_defs example_fs_def example_graph_def example_partitions_def)
  have rel: "list_all2 (\<lambda>x y. fst x = fst y \<and> set (snd x) = set (snd y)) example_partitions
      [(''A'', [''2'', ''1'', ''2'']), (''B'', [''3''])]"
    by (simp add: example_partitions_def) blast
  from argmax_first_maximum [where fs = example_fs and g = "''graph''", OF h1 h2] rel
  have "count_edges_in_cut_and_max_partition example_fs ''graph''
        [(''A'', [''2'', ''1'', ''2'']), (''B'', [''3''])]
      = count_edges_in_cut_and_max_partition example_fs ''graph'' example_partitions"
    by blast
  with h1 h2 run show ?thesis by simp
qed

text \<open>
  Claim C5. When the original graph file cannot be opened or read,
  \<open>count_edges_in_cut_and_max_partition\<close> returns (it raises nothing): the counters map
  every partition label to 0, no partition is returned, and the error is the one reported.
\<close>

theorem unreadable_graph_zero_counts:
  assumes "is_dict d" and "fs g = Inl e"
  shows "count_edges_in_cut_and_max_partition fs g d =
           ((map (\<lambda>(k, nodes). (k, 0)) d, None), Some e)"
  by (simp add: count_edges_in_cut_and_max_partition_def assms(2) zero_counts_eq [OF assms(1)])

theorem unreadable_graph_zero_counts_witness:
  "is_dict example_partitions \<and> example_fs ''missing'' = Inl (OSError ''missing'')
   \<and> count_edges_in_cut_and_max_partition example_fs ''missing'' example_partitions
       = (([(''A'', 0), (''B'', 0)], None), Some (OSError ''missing''))"
proof -
  have h1: "is_dict example_partitions"
    by (simp add: is_dict_def example_partitions_def)
  have h2: "example_fs ''missing'' = Inl (OSError ''missing'')"
    by (simp add: example_fs_def)
  show ?thesis
    using h1 h2 unreadable_graph_zero_counts [where fs = example_fs and g = "''missing''", OF h1 h2]
    by (simp add: example_partitions_def)
qed




section \<open>Facts about the extraction\<close>

lemma set_add_set: "set (set_add s x) = insert x (set s)"
  by (auto simp: set_add_def)

lemma set_add_distinct: "distinct s \<Longrightarrow> distinct (set_add s x)"
  by (simp add: set_add_def)

lemma scan_partition_lines_set:
  "set (scan_partition_lines ls acc) = set acc \<union> set (concat (map line_tokens ls))"
proof (induction ls arbitrary: acc)
  case Nil
  then show ?case by simp
next
  case (Cons l ls)
  show ?case
    by (simp add: Cons.IH Let_def line_tokens_def set_add_set split: option.splits)
qed

lemma scan_partition_lines_distinct:
  "distinct acc \<Longrightarrow> distinct (scan_partition_lines ls acc)"
proof (induction ls arbitrary: acc)
  case Nil
  then show ?case by simp
next
  case (Cons l ls)
  show ?case
    using Cons.prems
    by (auto simp: Let_def set_add_distinct split: option.splits intro!: Cons.IH)
qed

lemma extract_loop_append:
  "extract_loop fs (pre @ rest) acc =
     (case extract_loop fs pre acc of
        (a, None) \<Rightarrow> extract_loop fs rest a
      | (a, Some e) \<Rightarrow> (a, Some e))"
  by (induction pre arbitrary: acc) (auto split: sum.splits)

lemma extract_loop_readable:
  assumes "\<forall>p \<in> set pre. \<exists>body. fs p = Inr body" and "distinct (map fst acc)"
  shows "snd (extract_loop fs pre acc) = None
    \<and> distinct (map fst (fst (extract_loop fs pre acc)))
    \<and> (\<forall>p. map_of (fst (extract_loop fs pre acc)) p =
          (if p \<in> set pre
           then (case fs p of Inr body \<Rightarrow> Some (scan_partition_lines (readlines body) [])
                 | Inl e \<Rightarrow> None)
           else map_of acc p))"
  using assms
proof (induction pre arbitrary: acc)
  case Nil
  then show ?case by simp
next
  case (Cons q pre)
  from Cons.prems(1) obtain body where q: "fs q = Inr body" by auto
  let ?acc = "dict_set acc q (scan_partition_lines (readlines body) [])"
  have step: "extract_loop fs (q # pre) acc = extract_loop fs pre ?acc"
    by (simp add: q)
  have d: "distinct (map fst ?acc)"
    using Cons.prems(2) by (simp add: dict_set_def distinct_update)
  have r: "\<forall>p \<in> set pre. \<exists>body. fs p = Inr body" using Cons.prems(1) by simp
  have m: "map_of ?acc = (map_of acc)(q \<mapsto> scan_partition_lines (readlines body) [])"
    by (simp add: dict_set_def update_conv')
  from Cons.IH [OF r d] show ?case
    unfolding step by (simp add: m q)
qed

section \<open>Properties of the node extraction\<close>

text \<open>
  Claim C2 as stated fails: the partition file writes the nodes 12.0 and 13.0, the graph
  file has the edge from 12 to 14. Were \<open>12\<close> and \<open>12.0\<close> the same node, the edge would
  have exactly one endpoint in the partition; the cut analysis counts 0 edges for it.
\<close>

theorem decimal_and_integer_tokens_differ:
  "extract_unique_nodes_from_multiple_files mixed_fs [''P'']
     = ([(''P'', [''12.0'', ''13.0''])], None)
   \<and> map line_edge (readlines integer_graph) = [Some (''12'', ''14'')]
   \<and> count_edges_in_cut_and_max_partition mixed_fs ''G'' [(''P'', [''12.0'', ''13.0''])]
       = (([(''P'', 0)], Some ''P''), None)"
  by (simp add: extract_unique_nodes_from_multiple_files_def mixed_fs_def decimal_partition_def
      integer_graph_def line_edge_def eval_defs set_add_def)

text \<open>
  Claim C2, as amended. A node identifier is the token as it is written in the file, the
  longest run of digits and dots after the label, with no canonical form: the node list of
  a partition file holds exactly the tokens matched on its lines, each once, and the cut
  analysis counts for the partition the graph lines whose two tokens are not both, and not
  neither, among those tokens as character strings.
\<close>

theorem raw_tokens_are_node_ids:
  assumes "\<forall>p \<in> set files. \<exists>body. fs p = Inr body" and "fs g = Inr content"
  shows "\<exists>d. extract_unique_nodes_from_multiple_files fs files = (d, None) \<and> is_dict d
    \<and> (\<forall>p \<in> set files. \<forall>body. fs p = Inr body \<longrightarrow>
         (\<exists>nodes. map_of d p = Some nodes \<and> distinct nodes
            \<and> set nodes = set (raw_tokens body)
            \<and> counter (fst (fst (count_edges_in_cut_and_max_partition fs g d))) p =
                int (length (filter
                  (\<lambda>line. case line_edge line of
                             None \<Rightarrow> False
                           | Some (u, v) \<Rightarrow>
                               (u \<in> set (raw_tokens body)) \<noteq> (v \<in> set (raw_tokens body)))
                  (readlines content)))))"
proof -
  from extract_loop_readable [OF assms(1), of "[]"]
  have none: "snd (extract_loop fs files []) = None"
    and dist0: "distinct (map fst (fst (extract_loop fs files [])))"
    and look0: "\<And>p. map_of (fst (extract_loop fs files [])) p =
          (if p \<in> set files
           then (case fs p of Inr body \<Rightarrow> Some (scan_partition_lines (readlines body) [])
                 | Inl e \<Rightarrow> None)
           else None)"
    by simp_all
  obtain d where ex: "extract_loop fs files [] = (d, None)"
    using none by (metis prod.collapse)
  have dist: "distinct (map fst d)" using dist0 by (simp add: ex)
  have look: "map_of d p =
          (if p \<in> set files
           then (case fs p of Inr body \<Rightarrow> Some (scan_partition_lines (readlines body) [])
                 | Inl e \<Rightarrow> None)
           else None)" for p
    using look0 [of p] by (simp add: ex)
  have run: "extract_unique_nodes_from_multiple_files fs files = (d, None)"
    unfolding extract_unique_nodes_from_multiple_files_def by (rule ex)
  have isd: "is_dict d" using dist by (simp add: is_dict_def)
  have each: "\<exists>nodes. map_of d p = Some nodes \<and> distinct nodes
            \<and> set nodes = set (raw_tokens body)
            \<and> counter (fst (fst (count_edges_in_cut_and_max_partition fs g d))) p =
                int (length (filter
                  (\<lambda>line. case line_edge line of
                             None \<Rightarrow> False
                           | Some (u, v) \<Rightarrow>
                               (u \<in> set (raw_tokens body)) \<noteq> (v \<in> set (raw_tokens body)))
                  (readlines content)))"
    if p: "p \<in> set files" and b: "fs p = Inr body" for p body
  proof -
    let ?nodes = "scan_partition_lines (readlines body) []"
    have m: "map_of d p = Some ?nodes" using p b by (simp add: look)
    have dn: "distinct ?nodes" by (rule scan_partition_lines_distinct) simp
    have sn: "set ?nodes = set (raw_tokens body)"
      by (simp add: scan_partition_lines_set raw_tokens_def)
    have "counter (fst (fst (count_edges_in_cut_and_max_partition fs g d))) p
        = cut_count ?nodes (readlines content)"
      unfolding final_counts [where fs = fs and g = g, OF isd assms(2)]
      using m by (rule counter_of_map)
    then have cn: "counter (fst (fst (count_edges_in_cut_and_max_partition fs g d))) p =
                int (length (filter
                  (\<lambda>line. case line_edge line of
                             None \<Rightarrow> False
                           | Some (u, v) \<Rightarrow>
                               (u \<in> set (raw_tokens body)) \<noteq> (v \<in> set (raw_tokens body)))
                  (readlines content)))"
      by (simp only: cut_count_lines sn)
    from m dn sn cn show ?thesis by blast
  qed
  show ?thesis
    apply (rule exI [of _ d])
    using run isd each by blast
qed

theorem raw_tokens_are_node_ids_witness:
  "example_fs ''A'' = Inr example_partition_A \<and> example_fs ''B'' = Inr example_partition_B
   \<and> example_fs ''graph'' = Inr example_graph
   \<and> extract_unique_nodes_from_multiple_files example_fs [''A'', ''B'']
       = (example_partitions, None)
   \<and> (\<exists>d. extract_unique_nodes_from_multiple_files example_fs [''A'', ''B''] = (d, None)
        \<and> counter (fst (fst (count_edges_in_cut_and_max_partition example_fs ''graph'' d))) ''A''
            = 1)"
proof -
  have h1: "\<forall>p \<in> set [''A'', ''B'']. \<exists>body. example_fs p = Inr body"
    by (simp add: example_fs_def)
  have h2: "example_fs ''graph'' = Inr example_graph"
    by (simp add: example_fs_def)
  have run: "extract_unique_nodes_from_multiple_files example_fs [''A'', ''B'']
       = (example_partitions, None)"
    by (simp add: extract_unique_nodes_from_multiple_files_def example_fs_def
        example_partition_A_def example_partition_B_def example_partitions_def
        eval_defs set_add_def)
  have cnt: "counter (fst (fst (count_edges_in_cut_and_max_partition example_fs ''graph''
      example_partitions))) ''A'' = 1"
    by (simp add: eval_defs example_fs_def example_graph_def example_partitions_def counter_def)
  from raw_tokens_are_node_ids [where fs = example_fs and g = "''graph''", OF h1 h2]
  obtain d where "extract_unique_nodes_from_multiple_files example_fs [''A'', ''B''] = (d, None)"
    by blast
  with run cnt have "\<exists>d. extract_unique_nodes_from_multiple_files example_fs [''A'', ''B''] = (d, None)
        \<and> counter (fst (fst (count_edges_in_cut_and_max_partition example_fs ''graph'' d))) ''A''
            = 1"
    by auto
  moreover have "example_fs ''A'' = Inr example_partition_A"
    and "example_fs ''B'' = Inr example_partition_B"
    by (simp_all add: example_fs_def)
  ultimately show ?thesis using h2 run by blast
qed

text \<open>
  Claim C3 as stated fails: with the files \<open>missing\<close> (unreadable) and \<open>A\<close> (readable)
  given in this order, the returned mapping is empty and has no entry for \<open>A\<close>.
\<close>

theorem failing_file_hides_sibling:
  "example_fs ''A'' = Inr example_partition_A
   \<and> extract_unique_nodes_from_multiple_files example_fs [''missing'', ''A'']
       = ([], Some (OSError ''missing''))"
  by (simp add: extract_unique_nodes_from_multiple_files_def example_fs_def)

text \<open>
  Claim C3, as amended. If reading one file of the list fails, the error is reported and
  the extraction ends there: the returned mapping is the one built from the files before
  the first failing file, with an entry (its scanned nodes) for each of them and for no
  other file; the files after the failing one are not processed. The mapping of a list
  whose files are all readable has an entry for every file.
\<close>

theorem extraction_until_first_failure:
  assumes "\<forall>p \<in> set pre. \<exists>body. fs p = Inr body" and "fs bad = Inl e"
  shows "\<exists>d. extract_unique_nodes_from_multiple_files fs (pre @ bad # post) = (d, Some e)
    \<and> extract_unique_nodes_from_multiple_files fs pre = (d, None)
    \<and> is_dict d \<and> fst ` set d = set pre
    \<and> (\<forall>p \<in> set pre. \<forall>body. fs p = Inr body \<longrightarrow>
          map_of d p = Some (scan_partition_lines (readlines body) []))"
proof -
  from extract_loop_readable [OF assms(1), of "[]"]
  have none: "snd (extract_loop fs pre []) = None"
    and dist0: "distinct (map fst (fst (extract_loop fs pre [])))"
    and look0: "\<And>p. map_of (fst (extract_loop fs pre [])) p =
          (if p \<in> set pre
           then (case fs p of Inr body \<Rightarrow> Some (scan_partition_lines (readlines body) [])
                 | Inl e \<Rightarrow> None)
           else None)"
    by simp_all
  obtain d where pre: "extract_loop fs pre [] = (d, None)"
    using none by (metis prod.collapse)
  have dist: "distinct (map fst d)" using dist0 by (simp add: pre)
  have look: "map_of d p =
          (if p \<in> set pre
           then (case fs p of Inr body \<Rightarrow> Some (scan_partition_lines (readlines body) [])
                 | Inl e \<Rightarrow> None)
           else None)" for p
    using look0 [of p] by (simp add: pre)
  have all: "extract_loop fs (pre @ bad # post) [] = (d, Some e)"
    by (simp add: extract_loop_append pre assms(2))
  have keys: "fst ` set d = set pre"
  proof -
    have "(map_of d p \<noteq> None) = (p \<in> set pre)" for p
    proof (cases "p \<in> set pre")
      case True
      then obtain body where "fs p = Inr body" using assms(1) by blast
      then show ?thesis using True by (simp add: look)
    next
      case False
      then show ?thesis by (simp add: look)
    qed
    then have "dom (map_of d) = set pre" by (auto simp: dom_def)
    then show ?thesis by (simp add: dom_map_of_conv_image_fst)
  qed
  have vals: "\<forall>p \<in> set pre. \<forall>body. fs p = Inr body \<longrightarrow>
          map_of d p = Some (scan_partition_lines (readlines body) [])"
    by (simp add: look)
  show ?thesis
    apply (rule exI [of _ d])
    unfolding extract_unique_nodes_from_multiple_files_def is_dict_def
    using all pre dist keys vals by blast
qed

theorem extraction_until_first_failure_witness:
  "example_fs ''A'' = Inr example_partition_A
   \<and> example_fs ''missing'' = Inl (OSError ''missing'')
   \<and> extract_unique_nodes_from_multiple_files example_fs ([''A''] @ ''missing'' # [''B''])
       = ([(''A'', [''1'', ''2''])], Some (OSError ''missing''))"
proof -
  have h1: "\<forall>p \<in> set [''A'']. \<exists>body. example_fs p = Inr body"
    by (simp add: example_fs_def)
  have h2: "example_fs ''missing'' = Inl (OSError ''missing'')"
    by (simp add: example_fs_def)
  have run: "extract_unique_nodes_from_multiple_files example_fs [''A'']
      = ([(''A'', [''1'', ''2''])], None)"
    by (simp add: extract_unique_nodes_from_multiple_files_def example_fs_def
        example_partition_A_def eval_defs set_add_def)
  from extraction_until_first_failure [where fs = example_fs and post = "[''B'']", OF h1 h2] run
  have "extract_unique_nodes_from_multiple_files example_fs ([''A''] @ ''missing'' # [''B''])
       = ([(''A'', [''1'', ''2''])], Some (OSError ''missing''))"
    by auto
  moreover have "example_fs ''A'' = Inr example_partition_A"
    by (simp add: example_fs_def)
  ultimately show ?thesis using h2 by blast
qed

section \<open>Facts about the generator\<close>

lemma sample2_distinct:
  assumes "distinct population" and "sample2 population draw = Inr (x, y)"
  shows "x \<noteq> y \<and> x \<in> set population \<and> y \<in> set population"
proof -
  let ?n = "length population"
  have n: "\<not> ?n < 2" using assms(2) by (auto simp: sample2_def Let_def split: if_splits)
  let ?j1 = "fst draw mod ?n"
  let ?j2 = "snd draw mod (?n - 1)"
  have pos: "0 < ?n" and pos1: "0 < ?n - 1" using n by linarith+
  have j1: "?j1 < ?n" using pos by (rule mod_less_divisor)
  have j2: "?j2 < ?n - 1" using pos1 by (rule mod_less_divisor)
  have x: "x = population ! ?j1"
    and y: "y = (population[?j1 := population ! (?n - 1)]) ! ?j2"
    using assms(2) n by (auto simp: sample2_def Let_def)
  show ?thesis
  proof (cases "?j2 = ?j1")
    case True
    then have "y = population ! (?n - 1)" using y j1 by simp
    moreover have "?j1 \<noteq> ?n - 1" using True j2 by simp
    moreover have "?n - 1 < ?n" using n by simp
    ultimately show ?thesis
      using x j1 assms(1) by (simp add: nth_eq_iff_index_eq)
  next
    case False
    then have "y = population ! ?j2" using y by simp
    moreover have "?j2 < ?n" using j2 by simp
    ultimately show ?thesis
      using x j1 False assms(1) by (simp add: nth_eq_iff_index_eq)
  qed
qed

lemma sample2_error: "sample2 population draw = Inl e \<Longrightarrow> e = sample_too_large \<and> length population < 2"
  by (auto simp: sample2_def Let_def split: if_splits)

lemma simple_edges_add:
  assumes "simple_edges es" and "a \<noteq> b" and "(a, b) \<notin> set es" and "(b, a) \<notin> set es"
  shows "simple_edges (set_add es (a, b))"
  using assms unfolding simple_edges_def set_add_def by auto

lemma edges_loop_invariant:
  assumes "distinct keys" and "simple_edges es" and "set es \<subseteq> set keys \<times> set keys"
    and "edges_loop keys num_edges draws es = Some (Inr es')"
  shows "simple_edges es' \<and> set es' \<subseteq> set keys \<times> set keys"
  using assms(2-4)
proof (induction draws arbitrary: es)
  case Nil
  then show ?case by (auto split: if_splits)
next
  case (Cons draw draws)
  show ?case
  proof (cases "int (length es) < num_edges")
    case False
    then have "es' = es" using Cons.prems(3) by simp
    then show ?thesis using Cons.prems by simp
  next
    case True
    then obtain i t where s: "sample2 keys draw = Inr (i, t)"
      using Cons.prems(3) by (auto split: sum.splits)
    from sample2_distinct [OF assms(1) s]
    have ne: "i \<noteq> t" and ik: "i \<in> set keys" and tk: "t \<in> set keys" by simp_all
    show ?thesis
    proof (cases "(i, t) \<notin> set es \<and> (t, i) \<notin> set es")
      case fresh: True
      have 1: "simple_edges (set_add es (i, t))"
        using Cons.prems(1) ne fresh by (simp add: simple_edges_add)
      have 2: "set (set_add es (i, t)) \<subseteq> set keys \<times> set keys"
        using Cons.prems(2) ik tk by (auto simp: set_add_def)
      have 3: "edges_loop keys num_edges draws (set_add es (i, t)) = Some (Inr es')"
        using Cons.prems(3) True s fresh by simp
      from Cons.IH [OF 1 2 3] show ?thesis .
    next
      case False
      then have 3: "edges_loop keys num_edges draws es = Some (Inr es')"
        using Cons.prems(3) True s by auto
      from Cons.IH [OF Cons.prems(1) Cons.prems(2) 3] show ?thesis .
    qed
  qed
qed

lemma edges_loop_error:
  "edges_loop keys num_edges draws es = Some (Inl e) \<Longrightarrow> e = sample_too_large \<and> length keys < 2"
proof (induction draws arbitrary: es)
  case Nil
  then show ?case by (auto split: if_splits)
next
  case (Cons draw draws)
  then show ?case
    by (auto split: if_splits sum.splits prod.splits dest: sample2_error)
qed

lemma edges_loop_length:
  "edges_loop keys num_edges draws es = Some (Inr es') \<Longrightarrow>
   int (length es') = max num_edges (int (length es))"
proof (induction draws arbitrary: es)
  case Nil
  then show ?case by (auto split: if_splits)
next
  case (Cons draw draws)
  then show ?case
    by (fastforce simp: set_add_def split: if_splits sum.splits prod.splits)
qed

lemma make_features_edges:
  "make_features rnd nodes n es = Inr fs \<Longrightarrow>
   map (\<lambda>f. (init_node f, term_node f)) fs = es"
proof (induction es arbitrary: n fs)
  case Nil
  then show ?case by simp
next
  case (Cons e es)
  obtain i t where e: "e = (i, t)" by (cases e)
  from Cons.prems obtain fs' where fs': "make_features rnd nodes (n + 1) es = Inr fs'"
    and fs: "map (\<lambda>f. (init_node f, term_node f)) fs = (i, t) # map (\<lambda>f. (init_node f, term_node f)) fs'"
    by (auto simp: e split: option.splits sum.splits)
  from Cons.IH [OF fs'] fs show ?case by (simp add: e)
qed

lemma make_features_error: "make_features rnd nodes n es = Inl e \<Longrightarrow> e = KeyError"
  by (induction es arbitrary: n) (auto split: option.splits sum.splits)

lemma make_features_total:
  "set es \<subseteq> fst ` set nodes \<times> fst ` set nodes \<Longrightarrow> \<exists>fs. make_features rnd nodes n es = Inr fs"
proof (induction es arbitrary: n)
  case Nil
  then show ?case by simp
next
  case (Cons e es)
  obtain i t where e: "e = (i, t)" by (cases e)
  from Cons.prems e obtain ci ct where "map_of nodes i = Some ci" "map_of nodes t = Some ct"
    by (metis (no_types, lifting) SigmaD1 SigmaD2 domD dom_map_of_conv_image_fst list.set_intros(1) subsetD)
  moreover from Cons.IH [of "n + 1"] Cons.prems obtain fs where "make_features rnd nodes (n + 1) es = Inr fs"
    by auto
  ultimately show ?case by (simp add: e)
qed

lemma keys_upto: "map fst (map (\<lambda>i. (i, f i)) [1..n]) = [1..n]"
  by (simp add: comp_def)

lemma edges_loop_done:
  "\<not> int (length es) < num_edges \<Longrightarrow> edges_loop keys num_edges draws es = Some (Inr es)"
  by (cases draws) simp_all

lemma small_graph_no_edges:
  assumes "0 \<le> n" and "n < 2" and "m \<le> (n * (n - 1)) div 2"
  shows "m \<le> (0::int)"
proof -
  from assms(1,2) have "n = 0 \<or> n = 1" by linarith
  then have "(n * (n - 1)) div 2 = 0" by auto
  with assms(3) show ?thesis by simp
qed

lemma valid_configuration_no_error:
  assumes "0 \<le> num_nodes" and "num_edges \<le> (num_nodes * (num_nodes - 1)) div 2"
  shows "generate_geojson rnd num_nodes num_edges \<noteq> Some (Inl e)"
proof
  assume err: "generate_geojson rnd num_nodes num_edges = Some (Inl e)"
  let ?nodes = "map (\<lambda>i. (i, uniform_coord rnd i)) [1..num_nodes]"
  have keys: "map fst ?nodes = [1..num_nodes]" by (rule keys_upto)
  have guard: "\<not> num_edges > (num_nodes * (num_nodes - 1)) div 2" using assms(2) by simp
  show False
  proof (cases "edges_loop [1..num_nodes] num_edges (sample_draws rnd) []")
    case None
    then show False using err guard by (simp add: generate_geojson_def comp_def Let_def)
  next
    case (Some r)
    show False
    proof (cases r)
      case (Inl e')
      with Some have small: "length [1..num_nodes] < 2"
        using edges_loop_error by blast
      then have "num_nodes < 2" by simp
      then have "num_edges \<le> 0" using assms by (rule_tac small_graph_no_edges)
      then have "edges_loop [1..num_nodes] num_edges (sample_draws rnd) [] = Some (Inr [])"
        by (simp add: edges_loop_done)
      with Some Inl show False by simp
    next
      case (Inr es)
      have "simple_edges []" by (simp add: simple_edges_def)
      with Some Inr have "set es \<subseteq> set [1..num_nodes] \<times> set [1..num_nodes]"
        using edges_loop_invariant [of "[1..num_nodes]" "[]" num_edges "sample_draws rnd" es]
        by simp
      then have "set es \<subseteq> fst ` set ?nodes \<times> fst ` set ?nodes"
        by (metis keys set_map)
      then obtain fs where "make_features rnd ?nodes 1 es = Inr fs"
        using make_features_total by blast
      with Some Inr err guard show False
        by (simp add: generate_geojson_def comp_def Let_def)
    qed
  qed
qed

lemma generated_edge_count:
  assumes "generate_geojson rnd num_nodes num_edges = Some (Inr g)"
  shows "int (length (features g)) = max num_edges 0"
proof -
  let ?nodes = "map (\<lambda>i. (i, uniform_coord rnd i)) [1..num_nodes]"
  from assms obtain es where loop: "edges_loop [1..num_nodes] num_edges (sample_draws rnd) [] = Some (Inr es)"
    and mf: "make_features rnd ?nodes 1 es = Inr (features g)"
    by (auto simp: generate_geojson_def Let_def comp_def
        split: if_splits option.splits sum.splits)
  have "length (map (\<lambda>f. (init_node f, term_node f)) (features g)) = length es"
    using make_features_edges [OF mf] by simp
  then show ?thesis using edges_loop_length [OF loop] by simp
qed

lemma negative_nodes_sample_error:
  assumes "num_nodes < 0" and "1 \<le> num_edges"
    and "num_edges \<le> (num_nodes * (num_nodes - 1)) div 2"
  shows "generate_geojson rnd num_nodes num_edges = Some (Inl sample_too_large)"
proof -
  have keys: "[1..num_nodes] = []" using assms(1) by simp
  have "edges_loop [] num_edges draws [] = Some (Inl sample_too_large)" for draws
    using assms(2) by (cases draws) (simp_all add: sample2_def)
  then show ?thesis
    using assms(3) by (simp add: generate_geojson_def keys)
qed

lemma sample2_reach:
  assumes "i < length population" and "j < length population" and "i \<noteq> j"
  shows "\<exists>draw. sample2 population draw = Inr (population ! i, population ! j)"
proof -
  let ?n = "length population"
  have n2: "\<not> ?n < 2" using assms by linarith
  show ?thesis
  proof (cases "j = ?n - 1")
    case True
    then have i1: "i < ?n - 1" using assms by linarith
    have "sample2 population (i, i) = Inr (population ! i, population ! j)"
      using n2 assms(1) i1 True by (simp add: sample2_def Let_def)
    then show ?thesis by blast
  next
    case False
    then have j1: "j < ?n - 1" using assms(2) by linarith
    have "sample2 population (i, j) = Inr (population ! i, population ! j)"
      using n2 assms(1,3) j1 by (simp add: sample2_def Let_def)
    then show ?thesis by blast
  qed
qed

lemma fresh_pair_exists:
  assumes "distinct keys" and "length es < length keys choose 2"
  shows "\<exists>a b. a \<in> set keys \<and> b \<in> set keys \<and> a \<noteq> b
           \<and> (a, b) \<notin> set es \<and> (b, a) \<notin> set es"
proof (rule ccontr)
  assume none: "\<not> ?thesis"
  let ?U = "{S. S \<subseteq> set keys \<and> card S = 2}"
  let ?f = "\<lambda>(a, b). {a, b}"
  have "?U \<subseteq> ?f ` set es"
  proof
    fix S assume "S \<in> ?U"
    then have sub: "S \<subseteq> set keys" and c2: "card S = 2" by simp_all
    from c2 obtain a b where S: "S = {a, b}" and ne: "a \<noteq> b"
      by (auto simp: card_2_iff)
    have "a \<in> set keys" "b \<in> set keys" using sub S by simp_all
    with none ne have "(a, b) \<in> set es \<or> (b, a) \<in> set es" by blast
    then show "S \<in> ?f ` set es"
    proof
      assume "(a, b) \<in> set es"
      then show ?thesis using S by force
    next
      assume "(b, a) \<in> set es"
      moreover have "S = {b, a}" using S by (simp add: insert_commute)
      ultimately show ?thesis by force
    qed
  qed
  then have "card ?U \<le> card (?f ` set es)"
    by (simp add: card_mono)
  also have "\<dots> \<le> card (set es)" by (simp add: card_image_le)
  also have "\<dots> \<le> length es" by (rule card_length)
  finally have "card ?U \<le> length es" .
  moreover have "card ?U = length keys choose 2"
    using n_subsets [of "set keys" 2] assms(1) by (simp add: distinct_card)
  ultimately show False using assms(2) by simp
qed

lemma draws_exist:
  assumes "distinct keys" and "num_edges \<le> int (length keys choose 2)"
  shows "nat (num_edges - int (length es)) = k \<Longrightarrow>
         \<exists>draws es'. edges_loop keys num_edges draws es = Some (Inr es')"
proof (induction k arbitrary: es)
  case 0
  then have "\<not> int (length es) < num_edges" by simp
  then have "edges_loop keys num_edges [] es = Some (Inr es)" by (rule edges_loop_done)
  then show ?case by blast
next
  case (Suc k)
  then have lt: "int (length es) < num_edges" by simp
  then have "length es < length keys choose 2" using assms(2) by simp
  from fresh_pair_exists [OF assms(1) this]
  obtain a b where a: "a \<in> set keys" and b: "b \<in> set keys" and ne: "a \<noteq> b"
    and f1: "(a, b) \<notin> set es" and f2: "(b, a) \<notin> set es" by blast
  from a b obtain i j where i: "i < length keys" "keys ! i = a"
    and j: "j < length keys" "keys ! j = b"
    by (auto simp: in_set_conv_nth)
  have "i \<noteq> j" using ne i j by blast
  from sample2_reach [OF i(1) j(1) this] obtain draw
    where s: "sample2 keys draw = Inr (a, b)" using i j by auto
  have len: "length (set_add es (a, b)) = Suc (length es)"
    using f1 by (simp add: set_add_def)
  have "nat (num_edges - int (length (set_add es (a, b)))) = k"
    using Suc.prems len by simp
  from Suc.IH [OF this] obtain draws es'
    where "edges_loop keys num_edges draws (set_add es (a, b)) = Some (Inr es')" by blast
  then have "edges_loop keys num_edges (draw # draws) es = Some (Inr es')"
    using lt s f1 f2 by simp
  then show ?case by blast
qed

lemma choose_two_int:
  assumes "0 \<le> n"
  shows "int (nat n choose 2) = (n * (n - 1)) div 2"
proof -
  have "int (nat n choose 2) = int (nat n * (nat n - 1) div 2)"
    by (simp only: choose_two)
  also have "\<dots> = (int (nat n) * int (nat n - 1)) div 2"
    by (simp add: zdiv_int)
  also have "int (nat n) * int (nat n - 1) = n * (n - 1)"
  proof (cases "n = 0")
    case True
    then show ?thesis by simp
  next
    case False
    then have "1 \<le> nat n" using assms by simp
    then have "int (nat n - 1) = n - 1" using assms by (simp add: of_nat_diff)
    then show ?thesis using assms by simp
  qed
  finally show ?thesis .
qed

lemma valid_configuration_returns:
  assumes "0 \<le> num_nodes" and "num_edges \<le> (num_nodes * (num_nodes - 1)) div 2"
  shows "\<exists>draws g. generate_geojson (rnd\<lparr>sample_draws := draws\<rparr>) num_nodes num_edges = Some (Inr g)
           \<and> int (length (features g)) = max num_edges 0"
proof -
  have len: "length [1..num_nodes] = nat num_nodes" by simp
  have bound: "num_edges \<le> int (length [1..num_nodes] choose 2)"
    using assms by (simp only: len choose_two_int)
  have "nat (num_edges - int (length ([] :: (int \<times> int) list))) = nat num_edges" by simp
  from draws_exist [OF distinct_upto bound this]
  obtain draws es where loop: "edges_loop [1..num_nodes] num_edges draws [] = Some (Inr es)"
    by blast
  let ?rnd = "rnd\<lparr>sample_draws := draws\<rparr>"
  have "generate_geojson ?rnd num_nodes num_edges \<noteq> Some (Inl e)" for e
    using assms by (rule valid_configuration_no_error)
  moreover have "generate_geojson ?rnd num_nodes num_edges \<noteq> None"
    using assms(2) loop
    by (simp add: generate_geojson_def Let_def comp_def split: sum.splits)
  ultimately obtain g where g: "generate_geojson ?rnd num_nodes num_edges = Some (Inr g)"
    by (metis not_Some_eq sum.exhaust)
  then have "int (length (features g)) = max num_edges 0"
    by (rule generated_edge_count)
  with g show ?thesis by blast
qed

section \<open>Properties of the generator\<close>

text \<open>
  The error of the guard, told from the others by its message, for all integers.
\<close>

lemma too_many_edges_message_iff:
  "(generate_geojson rnd num_nodes num_edges = Some (Inl too_many_edges)
      \<longleftrightarrow> num_edges > (num_nodes * (num_nodes - 1)) div 2)
   \<and> generate_geojson rnd 10 46 = Some (Inl too_many_edges)
   \<and> (\<forall>e. generate_geojson rnd 10 45 \<noteq> Some (Inl e))"
proof -
  have ne1: "too_many_edges \<noteq> sample_too_large"
    by (simp add: too_many_edges_def sample_too_large_def)
  have ne2: "too_many_edges \<noteq> KeyError"
    by (simp add: too_many_edges_def)
  have only_if: "num_edges > (num_nodes * (num_nodes - 1)) div 2"
    if res: "generate_geojson rnd num_nodes num_edges = Some (Inl too_many_edges)"
  proof (rule ccontr)
    assume guard: "\<not> num_edges > (num_nodes * (num_nodes - 1)) div 2"
    let ?nodes = "map (\<lambda>i. (i, uniform_coord rnd i)) [1..num_nodes]"
    show False
    proof (cases "edges_loop (map fst ?nodes) num_edges (sample_draws rnd) []")
      case None
      then show False using res guard by (simp add: generate_geojson_def Let_def)
    next
      case (Some r)
      show False
      proof (cases r)
        case (Inl e')
        with Some have "e' = sample_too_large" using edges_loop_error by blast
        with Some Inl res guard ne1 show False
          by (simp add: generate_geojson_def Let_def)
      next
        case (Inr es)
        show False
        proof (cases "make_features rnd ?nodes 1 es")
          case (Inl e')
          then have "e' = KeyError" by (rule make_features_error)
          with Some Inr Inl res guard ne2 show False
            by (simp add: generate_geojson_def Let_def)
        next
          case inr: (Inr fs)
          with Some Inr res guard show False
            by (simp add: generate_geojson_def Let_def)
        qed
      qed
    qed
  qed
  have "if": "generate_geojson rnd num_nodes num_edges = Some (Inl too_many_edges)"
    if "num_edges > (num_nodes * (num_nodes - 1)) div 2"
    using that by (simp add: generate_geojson_def)
  have a: "generate_geojson rnd 10 46 = Some (Inl too_many_edges)"
    by (simp add: generate_geojson_def)
  have b: "\<forall>e. generate_geojson rnd 10 45 \<noteq> Some (Inl e)"
    by (intro allI valid_configuration_no_error) simp_all
  from only_if "if" a b show ?thesis by blast
qed

text \<open>
  Claim C9 as stated fails for a negative number of nodes: with \<open>N = -1\<close> and \<open>M = 1\<close> the
  guard compares 1 with \<open>N (N - 1) / 2 = 1\<close> and lets the call pass, there is no node, and
  \<^verbatim>\<open>random.sample\<close> raises a ValueError: an error is signalled although \<open>M\<close> does not
  exceed \<open>N (N - 1) / 2\<close>, and \<open>M = N (N - 1) / 2\<close> is not accepted.
\<close>

theorem negative_nodes_other_error:
  "generate_geojson example_rng (- 1) 1
     = Some (Inl (ValueError ''Sample larger than population or is negative''))
   \<and> \<not> (1::int) > ((- 1) * (- 1 - 1)) div 2"
  by (simp add: generate_geojson_def example_rng_def sample2_def sample_too_large_def)

text \<open>
  Claim C9, as amended. For all integers \<open>N \<ge> 0\<close> and \<open>M\<close>, whatever the random numbers,
  \<open>generate_geojson\<close> raises an error exactly when \<open>M > N (N - 1) / 2\<close>; the error is then
  "Too many edges for the given number of nodes.", the result is the error and no graph, and
  no random number has been drawn. Every \<open>M \<le> N (N - 1) / 2\<close>, and so \<open>M = N (N - 1) / 2\<close>
  exactly, is accepted: no error is raised, and there are draws of \<^verbatim>\<open>random.sample\<close> with
  which the call returns a graph of \<open>M\<close> edges (none for a negative \<open>M\<close>). For \<open>N = 10\<close>,
  \<open>M = 46\<close> the error is raised; \<open>N = 10\<close>, \<open>M = 45\<close> is accepted.
\<close>

theorem configuration_error_iff:
  assumes "0 \<le> num_nodes"
  shows "((\<exists>e. generate_geojson rnd num_nodes num_edges = Some (Inl e))
            \<longleftrightarrow> num_edges > (num_nodes * (num_nodes - 1)) div 2)
    \<and> (num_edges > (num_nodes * (num_nodes - 1)) div 2 \<longrightarrow>
          generate_geojson rnd num_nodes num_edges = Some (Inl too_many_edges))
    \<and> (num_edges \<le> (num_nodes * (num_nodes - 1)) div 2 \<longrightarrow>
          (\<exists>draws g. generate_geojson (rnd\<lparr>sample_draws := draws\<rparr>) num_nodes num_edges
                         = Some (Inr g)
                     \<and> int (length (features g)) = max num_edges 0))
    \<and> generate_geojson rnd 10 46 = Some (Inl too_many_edges)
    \<and> (\<forall>e. generate_geojson rnd 10 45 \<noteq> Some (Inl e))
    \<and> (\<exists>draws g. generate_geojson (rnd\<lparr>sample_draws := draws\<rparr>) 10 45 = Some (Inr g)
                  \<and> length (features g) = 45)"
proof -
  have raised: "generate_geojson rnd num_nodes num_edges = Some (Inl too_many_edges)"
    if "num_edges > (num_nodes * (num_nodes - 1)) div 2"
    using that by (simp add: generate_geojson_def)
  have quiet: "generate_geojson rnd num_nodes num_edges \<noteq> Some (Inl e)"
    if "\<not> num_edges > (num_nodes * (num_nodes - 1)) div 2" for e
    using assms that by (intro valid_configuration_no_error) simp_all
  have 1: "(\<exists>e. generate_geojson rnd num_nodes num_edges = Some (Inl e))
            \<longleftrightarrow> num_edges > (num_nodes * (num_nodes - 1)) div 2"
    using raised quiet by blast
  have 3: "\<exists>draws g. generate_geojson (rnd\<lparr>sample_draws := draws\<rparr>) num_nodes num_edges
                         = Some (Inr g)
                     \<and> int (length (features g)) = max num_edges 0"
    if "num_edges \<le> (num_nodes * (num_nodes - 1)) div 2"
    using assms that by (rule valid_configuration_returns)
  have 4: "generate_geojson rnd 10 46 = Some (Inl too_many_edges)"
    by (simp add: generate_geojson_def)
  have 5: "\<forall>e. generate_geojson rnd 10 45 \<noteq> Some (Inl e)"
    by (intro allI valid_configuration_no_error) simp_all
  have "\<exists>draws g. generate_geojson (rnd\<lparr>sample_draws := draws\<rparr>) 10 45 = Some (Inr g)
                  \<and> int (length (features g)) = max 45 0"
    by (rule valid_configuration_returns) simp_all
  then have 6: "\<exists>draws g. generate_geojson (rnd\<lparr>sample_draws := draws\<rparr>) 10 45 = Some (Inr g)
                  \<and> length (features g) = 45"
    by auto
  from 1 raised 3 4 5 6 show ?thesis by blast
qed

theorem configuration_error_iff_witness:
  "(0::int) \<le> 3
   \<and> \<not> (\<exists>e. generate_geojson example_rng 3 3 = Some (Inl e))
   \<and> generate_geojson example_rng 3 4 = Some (Inl too_many_edges)
   \<and> (\<exists>g. generate_geojson example_rng 3 3 = Some (Inr g) \<and> length (features g) = 3)"
proof -
  have h: "(0::int) \<le> 3" by simp
  have run: "\<exists>g. generate_geojson example_rng 3 3 = Some (Inr g) \<and> length (features g) = 3"
    by (simp add: generate_geojson_def example_rng_def sample2_def set_add_def Let_def
        upto_rec1)
  from configuration_error_iff [OF h, of example_rng 3]
  have a: "\<not> (\<exists>e. generate_geojson example_rng 3 3 = Some (Inl e))" by simp
  from configuration_error_iff [OF h, of example_rng 4]
  have b: "generate_geojson example_rng 3 4 = Some (Inl too_many_edges)" by simp
  from h a b run show ?thesis by blast
qed

text \<open>
  Claim C10. In every GeoJSON object that \<open>generate_geojson\<close> returns, each feature has
  two different endpoints, no two features (equal or not) are the reverse of one another,
  and no pair of endpoints occurs twice.
\<close>

theorem no_self_loops:
  assumes "generate_geojson rnd num_nodes num_edges = Some (Inr g)"
  shows "(\<forall>f \<in> set (features g). init_node f \<noteq> term_node f)
    \<and> (\<forall>f \<in> set (features g). \<forall>f' \<in> set (features g).
          \<not> (init_node f = term_node f' \<and> term_node f = init_node f'))
    \<and> distinct (map (\<lambda>f. (init_node f, term_node f)) (features g))"
proof -
  let ?nodes = "map (\<lambda>i. (i, uniform_coord rnd i)) [1..num_nodes]"
  from assms obtain es where loop: "edges_loop [1..num_nodes] num_edges (sample_draws rnd) [] = Some (Inr es)"
    and mf: "make_features rnd ?nodes 1 es = Inr (features g)"
    by (auto simp: generate_geojson_def Let_def comp_def
        split: if_splits option.splits sum.splits)
  have "simple_edges []" by (simp add: simple_edges_def)
  with loop have se: "simple_edges es"
    using edges_loop_invariant [of "[1..num_nodes]" "[]" num_edges "sample_draws rnd" es]
    by simp
  have es: "map (\<lambda>f. (init_node f, term_node f)) (features g) = es"
    using mf by (rule make_features_edges)
  have mem: "(init_node f, term_node f) \<in> set es" if "f \<in> set (features g)" for f
    using that es by force
  have 1: "\<forall>f \<in> set (features g). init_node f \<noteq> term_node f"
    using se mem unfolding simple_edges_def by blast
  have 2: "\<forall>f \<in> set (features g). \<forall>f' \<in> set (features g).
          \<not> (init_node f = term_node f' \<and> term_node f = init_node f')"
  proof (intro ballI notI)
    fix f f' assume f: "f \<in> set (features g)" and f': "f' \<in> set (features g)"
      and eq: "init_node f = term_node f' \<and> term_node f = init_node f'"
    from mem [OF f] eq have "(term_node f', init_node f') \<in> set es" by simp
    with mem [OF f'] se show False unfolding simple_edges_def by blast
  qed
  have 3: "distinct (map (\<lambda>f. (init_node f, term_node f)) (features g))"
    using se es by (simp add: simple_edges_def)
  from 1 2 3 show ?thesis by blast
qed

theorem no_self_loops_witness:
  "generate_geojson example_rng 3 3 =
     Some (Inr \<lparr>features =
       [\<lparr>fid = 1, cat = 1, init_node = 1, term_node = 3, capacity = (), length_km = (),
          coordinates = [((), ()), ((), ())]\<rparr>,
        \<lparr>fid = 2, cat = 2, init_node = 1, term_node = 2, capacity = (), length_km = (),
          coordinates = [((), ()), ((), ())]\<rparr>,
        \<lparr>fid = 3, cat = 3, init_node = 2, term_node = 3, capacity = (), length_km = (),
          coordinates = [((), ()), ((), ())]\<rparr>]\<rparr>)
   \<and> (\<exists>g. generate_geojson example_rng 3 3 = Some (Inr g)
         \<and> distinct (map (\<lambda>f. (init_node f, term_node f)) (features g)))"
proof -
  have run: "generate_geojson example_rng 3 3 =
     Some (Inr \<lparr>features =
       [\<lparr>fid = 1, cat = 1, init_node = 1, term_node = 3, capacity = (), length_km = (),
          coordinates = [((), ()), ((), ())]\<rparr>,
        \<lparr>fid = 2, cat = 2, init_node = 1, term_node = 2, capacity = (), length_km = (),
          coordinates = [((), ()), ((), ())]\<rparr>,
        \<lparr>fid = 3, cat = 3, init_node = 2, term_node = 3, capacity = (), length_km = (),
          coordinates = [((), ()), ((), ())]\<rparr>]\<rparr>)"
    by (simp add: generate_geojson_def example_rng_def sample2_def set_add_def Let_def
        upto_rec1)
  from no_self_loops [OF run] run show ?thesis by blast
qed

end
